theory Spec2Isabelle
  imports Main "HOL-Library.Sublist"
begin

section \<open>Python strings\<close>

text \<open>
  Python text is modelled as \<^typ>\<open>string\<close>; the development covers texts whose code
  points are below 256. The exceptions the modelled code can raise are values.
\<close>

datatype error = ValueError | KeyError | TypeError | AttributeError | FileNotFoundError

text \<open>\<^verbatim>\<open>s.find(sub)\<close>: the least index at which \<open>sub\<close> starts, \<open>None\<close> for Python's -1.\<close>

fun find_str :: "string \<Rightarrow> string \<Rightarrow> nat option" where
  "find_str sub [] = (if sub = [] then Some 0 else None)"
| "find_str sub (c # cs) =
     (if prefix sub (c # cs) then Some 0 else map_option Suc (find_str sub cs))"

text \<open>\<^verbatim>\<open>sub in s\<close>.\<close>

definition contains :: "string \<Rightarrow> string \<Rightarrow> bool" where
  "contains sub s = (find_str sub s \<noteq> None)"

text \<open>\<^verbatim>\<open>s.index(sub, start)\<close>: raises ValueError when \<open>sub\<close> does not occur in \<open>s[start:]\<close>.\<close>

definition index_str :: "string \<Rightarrow> string \<Rightarrow> nat \<Rightarrow> error + nat" where
  "index_str s sub start =
     (if length s < start then Inl ValueError
      else case find_str sub (drop start s) of
             None \<Rightarrow> Inl ValueError
           | Some i \<Rightarrow> Inr (start + i))"

text \<open>\<^verbatim>\<open>s[start:end]\<close> for indices that are not negative.\<close>

definition slice :: "string \<Rightarrow> nat \<Rightarrow> nat \<Rightarrow> string" where
  "slice s start end = drop start (take end s)"

text \<open>\<^verbatim>\<open>s.split(sep)\<close> for a one-character separator: never an empty list.\<close>

fun split_on :: "char \<Rightarrow> string \<Rightarrow> string list" where
  "split_on sep [] = [[]]"
| "split_on sep (c # cs) =
     (if c = sep then [] # split_on sep cs
      else (case split_on sep cs of
              [] \<Rightarrow> [[c]]
            | l # ls \<Rightarrow> (c # l) # ls))"

text \<open>\<^verbatim>\<open>str.isspace\<close> on one character, for the code points below 256.\<close>

definition isspace :: "char \<Rightarrow> bool" where
  "isspace c = ((of_char c :: nat) \<in> {9, 10, 11, 12, 13, 28, 29, 30, 31, 32, 133, 160})"

text \<open>\<^verbatim>\<open>s.strip()\<close>.\<close>

definition strip :: "string \<Rightarrow> string" where
  "strip s = rev (dropWhile isspace (rev (dropWhile isspace s)))"

text \<open>
  \<^verbatim>\<open>s.replace(old, new)\<close>: every occurrence of \<open>old\<close>, found from left to right without
  overlap, becomes \<open>new\<close>. With an empty \<open>old\<close>, \<open>new\<close> is put before every character and
  at the end.
\<close>

function replace_from :: "string \<Rightarrow> string \<Rightarrow> string \<Rightarrow> string" where
  "replace_from old new s =
     (if old = [] then s
      else if s = [] then []
      else if prefix old s then new @ replace_from old new (drop (length old) s)
      else hd s # replace_from old new (tl s))"
  by pat_completeness auto
termination
  by (relation "measure (\<lambda>(old, new, s). length s)") auto

definition str_replace :: "string \<Rightarrow> string \<Rightarrow> string \<Rightarrow> string" where
  "str_replace s old new =
     (if old = [] then new @ concat (map (\<lambda>c. c # new) s)
      else replace_from old new s)"

text \<open>\<^verbatim>\<open>str(n)\<close> for an integer that is not negative.\<close>

definition digit_char :: "nat \<Rightarrow> char" where
  "digit_char d = char_of (48 + d)"

fun str_nat :: "nat \<Rightarrow> string" where
  "str_nat n = (if n < 10 then [digit_char n] else str_nat (n div 10) @ [digit_char (n mod 10)])"

text \<open>
  \<^verbatim>\<open>html.escape(s)\<close> with its default \<open>quote=True\<close>: the library replaces \<open>&\<close> first, then
  \<open><\<close>, \<open>>\<close>, the double quote and the single quote.
\<close>

definition html_escape :: "string \<Rightarrow> string" where
  "html_escape s =
     (let s1 = str_replace s ''&'' ''&amp;'';
          s2 = str_replace s1 ''<'' ''&lt;'';
          s3 = str_replace s2 ''>'' ''&gt;'';
          s4 = str_replace s3 [CHR 0x22] ''&quot;''
      in str_replace s4 [CHR 0x27] ''&#x27;'')"

text \<open>What the five replacements make of one character.\<close>

definition escape_char :: "char \<Rightarrow> string" where
  "escape_char c =
     (if c = CHR ''&'' then ''&amp;''
      else if c = CHR ''<'' then ''&lt;''
      else if c = CHR ''>'' then ''&gt;''
      else if c = CHR 0x22 then ''&quot;''
      else if c = CHR 0x27 then ''&#x27;''
      else [c])"

section \<open>utils.extract\_illustrations\<close>

definition open_token :: string where
  "open_token = ''<!-- illustration:''"

definition close_token :: string where
  "close_token = ''-->''"

text \<open>
  One iteration of the loop over the lines appends at most one description; an exception
  of \<^verbatim>\<open>line.index\<close> leaves the function.
\<close>

fun extract_lines :: "string list \<Rightarrow> string list \<Rightarrow> error + string list" where
  "extract_lines [] illustrations = Inr illustrations"
| "extract_lines (line # rest) illustrations =
     (if contains open_token line then
        (case index_str line open_token 0 of
           Inl e \<Rightarrow> Inl e
         | Inr i \<Rightarrow>
             (let start = i + length open_token in
              case index_str line close_token start of
                Inl e \<Rightarrow> Inl e
              | Inr end \<Rightarrow>
                  extract_lines rest (illustrations @ [strip (slice line start end)])))
      else extract_lines rest illustrations)"

definition extract_illustrations :: "string \<Rightarrow> error + string list" where
  "extract_illustrations content = extract_lines (split_on CHR 0x0A content) []"

section \<open>image\_gen.gemini\_illustrate\_file\<close>

text \<open>
  What one pass through the \<^verbatim>\<open>try\<close> body does: the service answers with a JSON text whose
  \<open>content\<close> field is returned, or an exception with a message is raised.
\<close>

datatype outcome = Returns string | Raises string

text \<open>
  The result of the call together with what a test observes of it: how many times the
  service was called and how many seconds were slept.
\<close>

record augmentation =
  aug_content :: string
  aug_calls :: nat
  aug_slept :: nat

text \<open>The message test of the \<^verbatim>\<open>except\<close> branch.\<close>

definition transient :: "string \<Rightarrow> bool" where
  "transient e = (contains ''503'' e \<or> contains ''overloaded'' e)"

text \<open>The service is a stub that answers its \<open>k\<close>-th call (counted from 0) with \<open>svc k\<close>.\<close>

fun gemini_attempts ::
    "(nat \<Rightarrow> outcome) \<Rightarrow> nat \<Rightarrow> nat list \<Rightarrow> nat \<Rightarrow> nat \<Rightarrow> augmentation" where
  "gemini_attempts svc sleep_seconds [] calls slept =
     \<lparr>aug_content = [], aug_calls = calls, aug_slept = slept\<rparr>"
| "gemini_attempts svc sleep_seconds (attempt # rest) calls slept =
     (case svc calls of
        Returns c \<Rightarrow> \<lparr>aug_content = c, aug_calls = Suc calls, aug_slept = slept\<rparr>
      | Raises e \<Rightarrow>
          (if transient e
           then gemini_attempts svc sleep_seconds rest (Suc calls) (slept + sleep_seconds)
           else \<lparr>aug_content = [], aug_calls = Suc calls, aug_slept = slept\<rparr>))"

definition gemini_illustrate_file ::
    "(nat \<Rightarrow> outcome) option \<Rightarrow> nat \<Rightarrow> nat \<Rightarrow> augmentation" where
  "gemini_illustrate_file gemini_client max_retries sleep_seconds =
     (case gemini_client of
        None \<Rightarrow> \<lparr>aug_content = [], aug_calls = 0, aug_slept = 0\<rparr>
      | Some svc \<Rightarrow> gemini_attempts svc sleep_seconds [0..<max_retries] 0 0)"

section \<open>Paths (posixpath)\<close>

text \<open>\<^verbatim>\<open>os.path.join(a, b)\<close>.\<close>

definition join :: "string \<Rightarrow> string \<Rightarrow> string" where
  "join a b =
     (if prefix ''/'' b then b
      else if a = [] \<or> last a = CHR ''/'' then a @ b
      else a @ ''/'' @ b)"

text \<open>\<^verbatim>\<open>s.rstrip('/')\<close>.\<close>

definition rstrip_slash :: "string \<Rightarrow> string" where
  "rstrip_slash s = rev (dropWhile (\<lambda>c. c = CHR ''/'') (rev s))"

text \<open>\<^verbatim>\<open>os.path.dirname(p)\<close>: the text up to the last slash, without trailing slashes unless
  it consists of slashes only.\<close>

definition dirname :: "string \<Rightarrow> string" where
  "dirname p =
     (let head = rev (dropWhile (\<lambda>c. c \<noteq> CHR ''/'') (rev p))
      in if head \<noteq> [] \<and> head \<noteq> replicate (length head) CHR ''/''
         then rstrip_slash head else head)"

text \<open>\<^verbatim>\<open>'/'.join(comps)\<close>.\<close>

fun join_slash :: "string list \<Rightarrow> string" where
  "join_slash [] = []"
| "join_slash [c] = c"
| "join_slash (c # cs) = c @ ''/'' @ join_slash cs"

text \<open>The loop of \<^verbatim>\<open>os.path.normpath\<close> over the components, \<open>new_comps\<close> kept in order.\<close>

fun norm_comps :: "nat \<Rightarrow> string list \<Rightarrow> string list \<Rightarrow> string list" where
  "norm_comps initial_slashes [] new_comps = new_comps"
| "norm_comps initial_slashes (cmp # comps) new_comps =
     (if cmp = [] \<or> cmp = ''.'' then norm_comps initial_slashes comps new_comps
      else if cmp \<noteq> ''..'' \<or> (initial_slashes = 0 \<and> new_comps = [])
                \<or> (new_comps \<noteq> [] \<and> last new_comps = ''..'')
      then norm_comps initial_slashes comps (new_comps @ [cmp])
      else if new_comps \<noteq> [] then norm_comps initial_slashes comps (butlast new_comps)
      else norm_comps initial_slashes comps new_comps)"

definition normpath :: "string \<Rightarrow> string" where
  "normpath path =
     (if path = [] then ''.''
      else
        let initial_slashes =
              (if prefix ''/'' path
               then (if prefix ''//'' path \<and> \<not> prefix ''///'' path then 2 else 1)
               else (0::nat));
            comps = norm_comps initial_slashes (split_on CHR ''/'' path) [];
            p = replicate initial_slashes CHR ''/'' @ join_slash comps
        in if p = [] then ''.'' else p)"

text \<open>\<^verbatim>\<open>os.path.abspath(p)\<close> in the working directory \<open>cwd\<close>.\<close>

definition abspath :: "string \<Rightarrow> string \<Rightarrow> string" where
  "abspath cwd p = normpath (join cwd p)"

text \<open>\<^verbatim>\<open>os.path.commonprefix\<close> of two component lists.\<close>

fun commonprefix :: "string list \<Rightarrow> string list \<Rightarrow> string list" where
  "commonprefix (x # xs) (y # ys) = (if x = y then x # commonprefix xs ys else [])"
| "commonprefix _ _ = []"

text \<open>\<^verbatim>\<open>os.path.relpath(path, start)\<close> for a path that is not empty.\<close>

definition relpath :: "string \<Rightarrow> string \<Rightarrow> string \<Rightarrow> string" where
  "relpath cwd path start =
     (let start_list = filter (\<lambda>x. x \<noteq> []) (split_on CHR ''/'' (abspath cwd start));
          path_list = filter (\<lambda>x. x \<noteq> []) (split_on CHR ''/'' (abspath cwd path));
          i = length (commonprefix start_list path_list);
          rel_list = replicate (length start_list - i) ''..'' @ drop i path_list
      in if rel_list = [] then ''.'' else foldl join (hd rel_list) (tl rel_list))"

section \<open>utils.extract\_epub\_spine\_items\<close>

text \<open>
  An element of \<^verbatim>\<open>xml.etree.ElementTree\<close>: its tag (\<open>{uri}local\<close> when it has a
  namespace), its attribute dictionary and its child elements in document order.
\<close>

datatype element = Element (tag: string) (attrib: "(string \<times> string) list") (children: "element list")

text \<open>\<^verbatim>\<open>elem.iter()\<close>: the element and its descendants in document order.\<close>

fun iter :: "element \<Rightarrow> element list" where
  "iter (Element t a cs) = Element t a cs # concat (map iter cs)"

text \<open>
  The tag test of an ElementPath step: \<open>{}name\<close> stands for \<open>name\<close> without a namespace and
  \<open>{*}name\<close> for \<open>name\<close> in any namespace or none; every other tag is compared as it is.
\<close>

definition tag_matches :: "string \<Rightarrow> string \<Rightarrow> bool" where
  "tag_matches tg el_tag =
     (if prefix ''{*}'' tg then el_tag = drop 3 tg \<or> suffix (drop 2 tg) el_tag
      else if prefix ''{}'' tg then el_tag = drop 2 tg
      else el_tag = tg)"

text \<open>\<^verbatim>\<open>elem.find('p:name', {'p': ns})\<close>: the first child with the qualified tag.\<close>

definition find_child :: "string \<Rightarrow> string \<Rightarrow> element \<Rightarrow> element option" where
  "find_child ns name elem =
     List.find (\<lambda>e. tag_matches (''{'' @ ns @ ''}'' @ name) (tag e)) (children elem)"

text \<open>\<^verbatim>\<open>elem.find('.//p:name', {'p': ns})\<close>: the first proper descendant with the tag.\<close>

definition find_descendant :: "string \<Rightarrow> string \<Rightarrow> element \<Rightarrow> element option" where
  "find_descendant ns name elem =
     List.find (\<lambda>e. tag_matches (''{'' @ ns @ ''}'' @ name) (tag e)) (tl (iter elem))"

text \<open>\<^verbatim>\<open>s.strip('{')\<close>.\<close>

definition strip_brace :: "string \<Rightarrow> string" where
  "strip_brace s =
     rev (dropWhile (\<lambda>c. c = CHR ''{'') (rev (dropWhile (\<lambda>c. c = CHR ''{'') s)))"

text \<open>\<^verbatim>\<open>opf_root.tag.split('}')[0].strip('{')\<close>.\<close>

definition opf_namespace :: "element \<Rightarrow> string" where
  "opf_namespace opf_root = strip_brace (hd (split_on CHR ''}'' (tag opf_root)))"

text \<open>The loop that fills the \<open>manifest\<close> dictionary: a later item with the same id wins.\<close>

fun build_manifest :: "element list \<Rightarrow> (string \<rightharpoonup> string) \<Rightarrow> error + (string \<rightharpoonup> string)" where
  "build_manifest [] manifest = Inr manifest"
| "build_manifest (item # rest) manifest =
     (case map_of (attrib item) ''href'' of
        None \<Rightarrow> Inl KeyError
      | Some href \<Rightarrow>
          (case map_of (attrib item) ''id'' of
             None \<Rightarrow> Inl KeyError
           | Some ident \<Rightarrow> build_manifest rest (manifest(ident \<mapsto> href))))"

text \<open>The loop over the children of the spine element.\<close>

fun spine_loop ::
    "(string \<rightharpoonup> string) \<Rightarrow> string \<Rightarrow> element list \<Rightarrow> string list \<Rightarrow> error + string list" where
  "spine_loop manifest opf_path [] spine_items = Inr spine_items"
| "spine_loop manifest opf_path (itemref # rest) spine_items =
     (case map_of (attrib itemref) ''idref'' of
        None \<Rightarrow> Inl KeyError
      | Some idref \<Rightarrow>
          (case manifest idref of
             None \<Rightarrow> Inl KeyError
           | Some href \<Rightarrow>
               spine_loop manifest opf_path rest
                 (spine_items @ [normpath (join (dirname opf_path) href)])))"

definition container_ns :: string where
  "container_ns = ''urn:oasis:names:tc:opendocument:xmlns:container''"

text \<open>
  The archive has been unpacked into \<open>temp_dir\<close>; \<open>parse p\<close> is the root element that
  \<^verbatim>\<open>ET.parse(p).getroot()\<close> gives for the file at \<open>p\<close>, \<open>None\<close> when there is no such file.
  Iterating over the \<open>None\<close> that \<^verbatim>\<open>find\<close> returns for a missing manifest or spine is a
  TypeError, reading \<open>.attrib\<close> of it an AttributeError.
\<close>

definition extract_epub_spine_items ::
    "string \<Rightarrow> (string \<rightharpoonup> element) \<Rightarrow> error + string \<times> string list" where
  "extract_epub_spine_items temp_dir parse =
     (let container_path = join (join temp_dir ''META-INF'') ''container.xml'' in
      case parse container_path of
        None \<Rightarrow> Inl FileNotFoundError
      | Some root \<Rightarrow>
      (case find_descendant container_ns ''rootfile'' root of
        None \<Rightarrow> Inl AttributeError
      | Some rootfile \<Rightarrow>
      (case map_of (attrib rootfile) ''full-path'' of
        None \<Rightarrow> Inl KeyError
      | Some opf_rel_path \<Rightarrow>
      (let opf_path = join temp_dir opf_rel_path in
       case parse opf_path of
        None \<Rightarrow> Inl FileNotFoundError
      | Some opf_root \<Rightarrow>
      (let ns = opf_namespace opf_root in
       case find_child ns ''manifest'' opf_root of
        None \<Rightarrow> Inl TypeError
      | Some manifest_elem \<Rightarrow>
      (case build_manifest (children manifest_elem) Map.empty of
        Inl e \<Rightarrow> Inl e
      | Inr manifest \<Rightarrow>
      (case find_child ns ''spine'' opf_root of
        None \<Rightarrow> Inl TypeError
      | Some spine_elem \<Rightarrow>
      (case spine_loop manifest opf_path (children spine_elem) [] of
        Inl e \<Rightarrow> Inl e
      | Inr spine_items \<Rightarrow> Inr (temp_dir, spine_items)))))))))"

section \<open>image\_gen.zip\_epub\<close>

text \<open>
  The working tree: a directory lists its entries by name, in the order in which
  \<^verbatim>\<open>os.walk\<close> meets them.
\<close>

datatype node = File string | Dir "(string \<times> node) list"

datatype compression = ZIP_STORED | ZIP_DEFLATED

record zip_entry =
  arcname :: string
  compress_type :: compression
  data :: string

text \<open>The path of an entry \<open>name\<close> of the folder \<open>rel\<close>, relative to the root (\<open>rel\<close> is empty there).\<close>

definition rel_join :: "string \<Rightarrow> string \<Rightarrow> string" where
  "rel_join rel name = (if rel = [] then name else rel @ ''/'' @ name)"

text \<open>
  \<^verbatim>\<open>os.walk\<close> from the top down: the files of a folder first, then each of its
  subdirectories. The result lists every file with its path relative to the root, which is
  \<^verbatim>\<open>(Path(folder) / file).relative_to(epub_dir).as_posix()\<close>.
\<close>

fun walk :: "string \<Rightarrow> (string \<times> node) list \<Rightarrow> (string \<times> string) list"
  and walk_dirs :: "string \<Rightarrow> (string \<times> node) list \<Rightarrow> (string \<times> string) list" where
  "walk folder entries =
     concat (map (\<lambda>(name, n). case n of File d \<Rightarrow> [(rel_join folder name, d)] | Dir _ \<Rightarrow> []) entries)
     @ walk_dirs folder entries"
| "walk_dirs folder [] = []"
| "walk_dirs folder ((name, File d) # rest) = walk_dirs folder rest"
| "walk_dirs folder ((name, Dir sub) # rest) =
     walk (rel_join folder name) sub @ walk_dirs folder rest"

text \<open>
  The archive is the list of its entries in the order in which they are written. A
  directory named \<open>mimetype\<close> also exists as a path; \<^verbatim>\<open>ZipFile.write\<close> stores a directory
  as an empty entry whose name ends with a slash.
\<close>

definition zip_epub :: "(string \<times> node) list \<Rightarrow> zip_entry list" where
  "zip_epub epub_dir =
     (case map_of epub_dir ''mimetype'' of
        None \<Rightarrow> []
      | Some (File d) \<Rightarrow> [\<lparr>arcname = ''mimetype'', compress_type = ZIP_STORED, data = d\<rparr>]
      | Some (Dir _) \<Rightarrow> [\<lparr>arcname = ''mimetype/'', compress_type = ZIP_STORED, data = []\<rparr>])
     @ map (\<lambda>(rel_path, d). \<lparr>arcname = rel_path, compress_type = ZIP_DEFLATED, data = d\<rparr>)
         (filter (\<lambda>(rel_path, d). rel_path \<noteq> ''mimetype'') (walk [] epub_dir))"

section \<open>image\_gen.generate\_illustration\<close>

text \<open>
  Everything the run changes: the files by path (working tree and cache directory), the
  global illustration counter, the prompts sent to the image service so far and the files
  announced by \<open>Processing file\<close>. Reading and writing a file at a path do not fail in
  this model.
\<close>

record world =
  files :: "string \<rightharpoonup> string"
  illustration_counter :: nat
  image_prompts :: "string list"
  processed :: "string list"

text \<open>An artifact of an answer: whether it was filtered, whether it is an image, its bytes.\<close>

datatype artifact = Artifact (filtered: bool) (is_image: bool) (binary: string)

fun first_image_artifact :: "artifact list \<Rightarrow> string option" where
  "first_image_artifact [] = None"
| "first_image_artifact (a # as) = (if is_image a then Some (binary a) else first_image_artifact as)"

fun first_image :: "artifact list list \<Rightarrow> string option" where
  "first_image [] = None"
| "first_image (resp # answers) =
     (case first_image_artifact resp of
        Some b \<Rightarrow> Some b
      | None \<Rightarrow> first_image answers)"

text \<open>
  The client, when there is one, answers the prompt of its \<open>k\<close>-th call with the responses
  the stream delivers before it ends or raises; an exception is caught and gives \<open>False\<close>.
  So does the exception of \<^verbatim>\<open>os.makedirs\<close> for a path without a directory part, before
  anything is written.
\<close>

definition generate_illustration ::
    "string \<Rightarrow> string \<Rightarrow> (nat \<Rightarrow> string \<Rightarrow> artifact list list) option \<Rightarrow> world \<Rightarrow> bool \<times> world" where
  "generate_illustration prompt path stability_api w =
     (case stability_api of
        None \<Rightarrow> (False, w)
      | Some api \<Rightarrow>
          (let answers = api (length (image_prompts w)) prompt;
               w' = w\<lparr>image_prompts := image_prompts w @ [prompt]\<rparr>
           in case first_image answers of
                Some b \<Rightarrow>
                  if dirname path = [] then (False, w')
                  else (True, w'\<lparr>files := (files w')(path \<mapsto> b)\<rparr>)
              | None \<Rightarrow> (False, w')))"

section \<open>image\_gen.process\_epub\<close>

record env =
  cwd :: string
  temp_dir :: string
  gemini_client :: "(string \<Rightarrow> string \<Rightarrow> nat \<Rightarrow> outcome) option"
  stability_api :: "(nat \<Rightarrow> string \<Rightarrow> artifact list list) option"

definition illustration_filename :: "nat \<Rightarrow> string" where
  "illustration_filename n = ''illustration_'' @ str_nat n @ ''.png''"

definition local_cache_dir :: string where
  "local_cache_dir = ''./illustrations''"

text \<open>The two f-strings of the replacement.\<close>

definition marker_text :: "string \<Rightarrow> string" where
  "marker_text illustration = ''<!-- illustration: '' @ illustration @ '' -->''"

definition img_tag :: "string \<Rightarrow> string \<Rightarrow> string \<Rightarrow> string" where
  "img_tag img_rel_path filename illustration =
     ''<p><img src='' @ [CHR 0x27] @ img_rel_path @ ''/'' @ filename @ [CHR 0x27]
       @ '' alt='' @ [CHR 0x27] @ html_escape illustration @ [CHR 0x27] @ '' /></p>''"

definition replace_marker :: "string \<Rightarrow> string \<Rightarrow> string \<Rightarrow> string \<Rightarrow> string" where
  "replace_marker illustrated_content img_rel_path filename illustration =
     str_replace illustrated_content (marker_text illustration)
       (img_tag img_rel_path filename illustration)"

text \<open>
  The cache lookup and the generation of one illustration: \<^verbatim>\<open>os.path.exists\<close> on the cache
  file, \<^verbatim>\<open>shutil.copy\<close> out of the cache or, after a successful generation, into it.
\<close>

definition fetch_or_generate ::
    "(nat \<Rightarrow> string \<Rightarrow> artifact list list) option \<Rightarrow> string \<Rightarrow> string \<Rightarrow> string \<Rightarrow> world \<Rightarrow> world" where
  "fetch_or_generate api illustration src_illustration_path dest_illustration_path w =
     (case files w src_illustration_path of
        Some cached \<Rightarrow> w\<lparr>files := (files w)(dest_illustration_path \<mapsto> cached)\<rparr>
      | None \<Rightarrow>
          (case generate_illustration illustration dest_illustration_path api w of
             (success, w') \<Rightarrow>
               if success
               then (case files w' dest_illustration_path of
                       Some b \<Rightarrow> w'\<lparr>files := (files w')(src_illustration_path \<mapsto> b)\<rparr>
                     | None \<Rightarrow> w')
               else w'))"

text \<open>The body of the loop over the illustrations of one document.\<close>

definition illustrate_one ::
    "(nat \<Rightarrow> string \<Rightarrow> artifact list list) option \<Rightarrow> string \<Rightarrow> string \<Rightarrow> string \<Rightarrow>
     string \<times> world \<Rightarrow> string \<times> world" where
  "illustrate_one api images_dir img_rel_path illustration cw =
     (let illustrated_content = fst cw; w = snd cw;
          filename = illustration_filename (illustration_counter w);
          w1 = w\<lparr>illustration_counter := illustration_counter w + 1\<rparr>;
          src_illustration_path = join local_cache_dir filename;
          dest_illustration_path = join images_dir filename;
          w2 = fetch_or_generate api illustration src_illustration_path dest_illustration_path w1
      in (replace_marker illustrated_content img_rel_path filename illustration, w2))"

fun process_illustrations ::
    "(nat \<Rightarrow> string \<Rightarrow> artifact list list) option \<Rightarrow> string \<Rightarrow> string \<Rightarrow> string list \<Rightarrow>
     string \<times> world \<Rightarrow> string \<times> world" where
  "process_illustrations api images_dir img_rel_path [] cw = cw"
| "process_illustrations api images_dir img_rel_path (illustration # rest) cw =
     process_illustrations api images_dir img_rel_path rest
       (illustrate_one api images_dir img_rel_path illustration cw)"

text \<open>\<^verbatim>\<open>if max_files and max_files > 0: spine_items = spine_items[:max_files]\<close>.\<close>

definition limit_spine :: "int option \<Rightarrow> string list \<Rightarrow> string list" where
  "limit_spine max_files spine_items =
     (case max_files of
        None \<Rightarrow> spine_items
      | Some n \<Rightarrow> if n \<noteq> 0 \<and> n > 0 then take (nat n) spine_items else spine_items)"

definition images_dir_of :: "string \<Rightarrow> string" where
  "images_dir_of tmp = join (join tmp ''OEBPS'') ''Images''"

text \<open>
  The loop over the spine items. Opening a file that does not exist and an exception of
  the extraction end the run with the error.
\<close>

fun process_spine_items :: "env \<Rightarrow> string list \<Rightarrow> world \<Rightarrow> error + world" where
  "process_spine_items e [] w = Inr w"
| "process_spine_items e (file_path # rest) w =
     (let w0 = w\<lparr>processed := processed w @ [file_path]\<rparr> in
      case files w0 file_path of
        None \<Rightarrow> Inl FileNotFoundError
      | Some content \<Rightarrow>
          if length content < 400 then process_spine_items e rest w0
          else
            (let illustrated_content =
                   aug_content (gemini_illustrate_file
                     (map_option (\<lambda>g. g file_path content) (gemini_client e)) 5 5)
             in if illustrated_content = [] then process_spine_items e rest w0
                else
                  (case extract_illustrations illustrated_content of
                     Inl err \<Rightarrow> Inl err
                   | Inr illustrations \<Rightarrow>
                       if illustrations = [] then process_spine_items e rest w0
                       else
                         (let images_dir = images_dir_of (temp_dir e);
                              img_rel_path = relpath (cwd e) images_dir (dirname file_path);
                              cw = process_illustrations (stability_api e) images_dir img_rel_path
                                     illustrations (illustrated_content, w0);
                              w1 = snd cw
                          in process_spine_items e rest
                               (w1\<lparr>files := (files w1)(file_path \<mapsto> fst cw)\<rparr>)))))"

text \<open>
  \<^verbatim>\<open>process_epub\<close> between the extraction of the spine and the repackaging: it returns at
  once when neither client is there, and starts the illustration counter at 0.
\<close>

definition process_epub :: "env \<Rightarrow> int option \<Rightarrow> string list \<Rightarrow> world \<Rightarrow> error + world" where
  "process_epub e max_files spine_items w =
     (if gemini_client e = None \<and> stability_api e = None then Inr w
      else process_spine_items e (limit_spine max_files spine_items)
             (w\<lparr>illustration_counter := 0\<rparr>))"

section \<open>Example inputs\<close>

text \<open>A stub that reports overload on its first two calls and then succeeds.\<close>

definition overloaded_twice :: "nat \<Rightarrow> outcome" where
  "overloaded_twice k = (if k < 2 then Raises ''503 UNAVAILABLE: The model is overloaded.'' else Returns ''<p>x</p>'')"


text \<open>An image service whose stream ends without any response.\<close>

definition failing_api :: "nat \<Rightarrow> string \<Rightarrow> artifact list list" where
  "failing_api k prompt = []"

text \<open>A run with two short chapters, no augmentation client and the failing image service.\<close>

definition ex_env :: env where
  "ex_env = \<lparr>cwd = ''/home/u'', temp_dir = ''/tmp/epub_extract_1'',
             gemini_client = None, stability_api = Some failing_api\<rparr>"

definition ex_spine :: "string list" where
  "ex_spine = [''/tmp/epub_extract_1/OEBPS/ch1.xhtml'', ''/tmp/epub_extract_1/OEBPS/ch2.xhtml'']"

definition ex_world :: world where
  "ex_world = \<lparr>files = [''/tmp/epub_extract_1/OEBPS/ch1.xhtml'' \<mapsto> ''<p>one</p>'',
                         ''/tmp/epub_extract_1/OEBPS/ch2.xhtml'' \<mapsto> ''<p>two</p>''],
               illustration_counter = 0, image_prompts = [], processed = []\<rparr>"

text \<open>The same world after an earlier run has left the image of index 0 in the cache.\<close>

definition ex_cached_world :: world where
  "ex_cached_world = ex_world\<lparr>files := (files ex_world)(''./illustrations/illustration_0.png'' \<mapsto> ''PNG0'')\<rparr>"

text \<open>An augmented text in which the same description is marked twice.\<close>

definition ex_twice :: string where
  "ex_twice = ''<!-- illustration: a cat --><p>x</p><!-- illustration: a cat -->''"

text \<open>A working tree with the root-level \<open>mimetype\<close> file and a nested file of the same name.\<close>

definition ex_tree :: "(string \<times> node) list" where
  "ex_tree = [(''META-INF'', Dir [(''container.xml'', File ''<container/>'')]),
              (''mimetype'', File ''application/epub+zip''),
              (''OEBPS'', Dir [(''content.opf'', File ''<package/>''),
                               (''Text'', Dir [(''mimetype'', File ''x'')])])]"


text \<open>A package whose spine lists the second chapter before the first.\<close>

definition ex_container :: element where
  "ex_container =
     Element ''{urn:oasis:names:tc:opendocument:xmlns:container}container'' [(''version'', ''1.0'')]
       [Element ''{urn:oasis:names:tc:opendocument:xmlns:container}rootfiles'' []
          [Element ''{urn:oasis:names:tc:opendocument:xmlns:container}rootfile''
             [(''full-path'', ''OEBPS/content.opf''),
              (''media-type'', ''application/oebps-package+xml'')] []]]"

definition ex_manifest :: element where
  "ex_manifest =
     Element ''{http://www.idpf.org/2007/opf}manifest'' []
       [Element ''{http://www.idpf.org/2007/opf}item'' [(''id'', ''c1''), (''href'', ''Text/ch1.xhtml'')] [],
        Element ''{http://www.idpf.org/2007/opf}item'' [(''id'', ''c2''), (''href'', ''Text/../ch2.xhtml'')] []]"

definition ex_spine_elem :: element where
  "ex_spine_elem =
     Element ''{http://www.idpf.org/2007/opf}spine'' []
       [Element ''{http://www.idpf.org/2007/opf}itemref'' [(''idref'', ''c2'')] [],
        Element ''{http://www.idpf.org/2007/opf}itemref'' [(''idref'', ''c1'')] []]"

definition ex_opf :: element where
  "ex_opf =
     Element ''{http://www.idpf.org/2007/opf}package'' [(''version'', ''3.0'')]
       [Element ''{http://www.idpf.org/2007/opf}metadata'' [] [], ex_manifest, ex_spine_elem]"

definition ex_parse :: "string \<rightharpoonup> element" where
  "ex_parse = [''/tmp/epub_extract_1/META-INF/container.xml'' \<mapsto> ex_container,
               ''/tmp/epub_extract_1/OEBPS/content.opf'' \<mapsto> ex_opf]"

definition ex_manifest_dict :: "string \<rightharpoonup> string" where
  "ex_manifest_dict = [''c1'' \<mapsto> ''Text/ch1.xhtml'', ''c2'' \<mapsto> ''Text/../ch2.xhtml'']"


text \<open>A text that already holds the image reference, and a marker written without spaces.\<close>

definition ex_illustrated :: string where
  "ex_illustrated = img_tag ''Images'' ''illustration_0.png'' ''a cat'' @ marker_text ''a cat''"

definition ex_tight :: string where
  "ex_tight = ''<p>x</p><!-- illustration:a cat--><p>y</p>''"




text \<open>A marker without the space after the colon whose interior holds a second marker.\<close>

definition ex_nested :: string where
  "ex_nested = open_token @ ''x '' @ marker_text ''y'' @ [CHR 0x0A] @ marker_text ''y''"


section \<open>Properties\<close>

declare replace_from.simps [simp del]

lemma replace_one_char:
  "str_replace s [c] new = concat (map (\<lambda>x. if x = c then new else [x]) s)"
proof -
  have "replace_from [c] new s = concat (map (\<lambda>x. if x = c then new else [x]) s)"
  proof (induction s)
    case Nil
    then show ?case by (subst replace_from.simps) simp
  next
    case (Cons x s)
    then show ?case by (subst replace_from.simps) auto
  qed
  then show ?thesis by (simp add: str_replace_def)
qed

lemma concat_map_concat_map:
  "concat (map g (concat (map f s))) = concat (map (\<lambda>x. concat (map g (f x))) s)"
  by (induction s) simp_all

lemma html_escape_chars: "html_escape s = concat (map escape_char s)"
proof -
  have "concat (map (\<lambda>x. if x = CHR 0x27 then ''&#x27;'' else [x])
          (concat (map (\<lambda>x. if x = CHR 0x22 then ''&quot;'' else [x])
            (concat (map (\<lambda>x. if x = CHR ''>'' then ''&gt;'' else [x])
              (concat (map (\<lambda>x. if x = CHR ''<'' then ''&lt;'' else [x])
                (concat (map (\<lambda>x. if x = CHR ''&'' then ''&amp;'' else [x]) s)))))))))
      = concat (map escape_char s)"
    unfolding concat_map_concat_map
    by (rule arg_cong[where f = concat], rule map_cong[OF refl]) (simp add: escape_char_def)
  then show ?thesis by (simp add: html_escape_def Let_def replace_one_char)
qed


lemma gemini_attempts_skip:
  "n \<le> length xs \<Longrightarrow> (\<And>k. k < n \<Longrightarrow> \<exists>e. svc (calls + k) = Raises e \<and> transient e) \<Longrightarrow>
   gemini_attempts svc s xs calls slept
     = gemini_attempts svc s (drop n xs) (calls + n) (slept + n * s)"
proof (induction n arbitrary: xs calls slept)
  case 0
  then show ?case by simp
next
  case (Suc n)
  then obtain x xs' where xs: "xs = x # xs'" by (cases xs) auto
  from Suc.prems(2)[of 0] obtain e where e: "svc calls = Raises e" "transient e" by auto
  have step: "gemini_attempts svc s xs calls slept = gemini_attempts svc s xs' (Suc calls) (slept + s)"
    using xs e by simp
  have "gemini_attempts svc s xs' (Suc calls) (slept + s)
        = gemini_attempts svc s (drop n xs') (Suc calls + n) ((slept + s) + n * s)"
  proof (rule Suc.IH)
    show "n \<le> length xs'" using Suc.prems(1) xs by simp
    fix k assume "k < n"
    then show "\<exists>e. svc (Suc calls + k) = Raises e \<and> transient e"
      using Suc.prems(2)[of "Suc k"] by simp
  qed
  then show ?case using step xs by (simp add: algebra_simps)
qed

lemma gemini_attempts_calls_le:
  "aug_calls (gemini_attempts svc s xs calls slept) \<le> calls + length xs"
proof (induction xs arbitrary: calls slept)
  case Nil
  then show ?case by simp
next
  case (Cons x xs)
  show ?case
  proof (cases "svc calls")
    case (Returns c)
    then show ?thesis by simp
  next
    case (Raises e)
    show ?thesis
      using Cons.IH[of "Suc calls" "slept + s"] Raises by simp
  qed
qed

text \<open>
  C7: the augmentation call is repeated, after \<open>sleep_seconds\<close>, only when the exception
  carries the overload signal, and at most \<open>max_retries\<close> calls are made; any other
  exception ends the attempts at once. A stub that reports overload on its first \<open>N - 1\<close>
  calls, with \<open>N\<close> at most the ceiling, and then succeeds is called exactly \<open>N\<close> times
  and its content is returned, after \<open>(N - 1) * sleep_seconds\<close> seconds of waiting.
\<close>

theorem retry_policy:
  assumes N: "1 \<le> N" "N \<le> max_retries"
    and over: "\<forall>k<N - 1. \<exists>e. svc k = Raises e \<and> transient e"
  shows "(svc (N - 1) = Returns c \<longrightarrow>
            gemini_illustrate_file (Some svc) max_retries sleep_seconds
              = \<lparr>aug_content = c, aug_calls = N, aug_slept = (N - 1) * sleep_seconds\<rparr>)
       \<and> (svc (N - 1) = Raises msg \<and> \<not> transient msg \<longrightarrow>
            gemini_illustrate_file (Some svc) max_retries sleep_seconds
              = \<lparr>aug_content = [], aug_calls = N, aug_slept = (N - 1) * sleep_seconds\<rparr>)
       \<and> (svc (N - 1) = Raises msg \<and> transient msg \<and> N = max_retries \<longrightarrow>
            gemini_illustrate_file (Some svc) max_retries sleep_seconds
              = \<lparr>aug_content = [], aug_calls = max_retries, aug_slept = max_retries * sleep_seconds\<rparr>)
       \<and> aug_calls (gemini_illustrate_file (Some svc) max_retries sleep_seconds) \<le> max_retries"
proof -
  let ?xs = "[0..<max_retries]"
  have skip: "gemini_attempts svc sleep_seconds ?xs 0 0
      = gemini_attempts svc sleep_seconds (drop (N - 1) ?xs) (N - 1) ((N - 1) * sleep_seconds)"
    using gemini_attempts_skip[of "N - 1" ?xs svc 0 sleep_seconds 0] N over by simp
  have dr: "drop (N - 1) ?xs = (N - 1) # [N..<max_retries]"
  proof -
    have "drop (N - 1) ?xs = [N - 1..<max_retries]" by (simp add: drop_upt)
    also have "\<dots> = (N - 1) # [Suc (N - 1)..<max_retries]"
      using N by (intro upt_conv_Cons) simp
    finally show ?thesis using N by simp
  qed
  have skip': "gemini_attempts svc sleep_seconds ?xs 0 0
      = gemini_attempts svc sleep_seconds ((N - 1) # [N..<max_retries]) (N - 1) ((N - 1) * sleep_seconds)"
    using skip unfolding dr .
  have g: "gemini_illustrate_file (Some svc) max_retries sleep_seconds
      = gemini_attempts svc sleep_seconds ((N - 1) # [N..<max_retries]) (N - 1) ((N - 1) * sleep_seconds)"
    unfolding gemini_illustrate_file_def using skip' by simp
  have SN: "Suc (N - 1) = N" using N by simp
  have 1: "svc (N - 1) = Returns c \<longrightarrow>
            gemini_illustrate_file (Some svc) max_retries sleep_seconds
              = \<lparr>aug_content = c, aug_calls = N, aug_slept = (N - 1) * sleep_seconds\<rparr>"
    unfolding g using SN by simp
  have 2: "svc (N - 1) = Raises msg \<and> \<not> transient msg \<longrightarrow>
            gemini_illustrate_file (Some svc) max_retries sleep_seconds
              = \<lparr>aug_content = [], aug_calls = N, aug_slept = (N - 1) * sleep_seconds\<rparr>"
    unfolding g using SN by simp
  have 3: "svc (N - 1) = Raises msg \<and> transient msg \<and> N = max_retries \<longrightarrow>
            gemini_illustrate_file (Some svc) max_retries sleep_seconds
              = \<lparr>aug_content = [], aug_calls = max_retries, aug_slept = max_retries * sleep_seconds\<rparr>"
  proof (intro impI, elim conjE)
    assume a: "svc (N - 1) = Raises msg" "transient msg" "N = max_retries"
    have "(N - 1) * sleep_seconds + sleep_seconds = N * sleep_seconds"
      using SN by (metis mult_Suc add.commute)
    then show "gemini_illustrate_file (Some svc) max_retries sleep_seconds
              = \<lparr>aug_content = [], aug_calls = max_retries, aug_slept = max_retries * sleep_seconds\<rparr>"
      unfolding g using a SN by simp
  qed
  have 4: "aug_calls (gemini_illustrate_file (Some svc) max_retries sleep_seconds) \<le> max_retries"
    using gemini_attempts_calls_le[of svc sleep_seconds ?xs 0 0]
    by (simp add: gemini_illustrate_file_def)
  from 1 2 3 4 show ?thesis by blast
qed

lemma t503: "transient ''503 UNAVAILABLE: The model is overloaded.''"
  by (simp add: transient_def contains_def)

theorem retry_policy_witness:
  "gemini_illustrate_file (Some overloaded_twice) 5 5
     = \<lparr>aug_content = ''<p>x</p>'', aug_calls = 3, aug_slept = 10\<rparr>"
proof -
  have "\<forall>k<3 - 1. \<exists>e. overloaded_twice k = Raises e \<and> transient e"
    using t503 by (simp add: overloaded_twice_def)
  moreover have "overloaded_twice (3 - 1) = Returns ''<p>x</p>''"
    by (simp add: overloaded_twice_def)
  ultimately show ?thesis
    using retry_policy[of 3 5 overloaded_twice "''<p>x</p>''" 5] by simp
qed


lemma replace_from_first:
  "old \<noteq> [] \<Longrightarrow> find_str old s = Some i \<Longrightarrow>
   replace_from old new s = take i s @ new @ replace_from old new (drop (i + length old) s)"
proof (induction s arbitrary: i)
  case Nil
  then show ?case by simp
next
  case (Cons c cs)
  show ?case
  proof (cases "prefix old (c # cs)")
    case True
    then have "i = 0" using Cons.prems by simp
    then show ?thesis using True Cons.prems(1)
      by (subst replace_from.simps) simp
  next
    case False
    then obtain j where j: "find_str old cs = Some j" "i = Suc j"
      using Cons.prems by auto
    have "replace_from old new (c # cs) = c # replace_from old new cs"
      using False Cons.prems(1) by (subst replace_from.simps) simp
    then show ?thesis using Cons.IH[OF Cons.prems(1) j(1)] j(2) by simp
  qed
qed

lemma replace_from_absent:
  "find_str old s = None \<Longrightarrow> replace_from old new s = s"
proof (induction s)
  case Nil
  then show ?case by (subst replace_from.simps) simp
next
  case (Cons c cs)
  then have np: "\<not> prefix old (c # cs)" and r: "find_str old cs = None"
    by (auto split: if_splits)
  show ?case using np Cons.IH[OF r] by (subst replace_from.simps) simp
qed

lemma marker_text_nonempty: "marker_text d \<noteq> []"
  by (simp add: marker_text_def)

lemma fetch_or_generate_fields:
  "processed (fetch_or_generate api d src dest w) = processed w"
  "illustration_counter (fetch_or_generate api d src dest w) = illustration_counter w"
  by (auto simp: fetch_or_generate_def generate_illustration_def Let_def
      split: option.splits prod.splits if_splits)

lemma illustrate_one_processed:
  "processed (snd (illustrate_one api dir rel d cw)) = processed (snd cw)"
  by (simp add: illustrate_one_def Let_def fetch_or_generate_fields)

lemma process_illustrations_processed:
  "processed (snd (process_illustrations api dir rel ds cw)) = processed (snd cw)"
  by (induction ds arbitrary: cw) (simp_all add: illustrate_one_processed)

lemma process_spine_items_processed:
  "process_spine_items e xs w = Inr w' \<Longrightarrow> processed w' = processed w @ xs"
proof (induction xs arbitrary: w)
  case Nil
  then show ?case by simp
next
  case (Cons x xs)
  show ?case
    using Cons.prems
    by (auto simp: Let_def process_illustrations_processed
        split: option.splits if_splits sum.splits dest!: Cons.IH)
qed

text \<open>
  C8 (as amended): a value \<open>N\<close> of \<open>--max-files\<close> that is greater than 0 restricts the run to
  the first \<open>N\<close> entries of the spine; with \<open>N\<close> equal to 0 or negative the limit is not
  applied and every entry of the spine is processed.
\<close>

theorem max_files_limit:
  "limit_spine (Some N) spine_items = (if 0 < N then take (nat N) spine_items else spine_items)
   \<and> limit_spine None spine_items = spine_items
   \<and> (process_epub e (Some N) spine_items w = Inr w' \<and>
        (gemini_client e \<noteq> None \<or> stability_api e \<noteq> None) \<longrightarrow>
        processed w' = processed w @ (if 0 < N then take (nat N) spine_items else spine_items))"
  using process_spine_items_processed[of e "limit_spine (Some N) spine_items"
      "w\<lparr>illustration_counter := 0\<rparr>" w']
  by (auto simp: limit_spine_def process_epub_def)

text \<open>
  With \<open>--max-files 0\<close> both chapters of the example are announced and read, not none.
\<close>

theorem max_files_zero_counterexample:
  "process_epub ex_env (Some 0) ex_spine ex_world = Inr (ex_world\<lparr>processed := ex_spine\<rparr>)
   \<and> ex_spine \<noteq> take 0 ex_spine"
  by (simp add: process_epub_def ex_env_def limit_spine_def ex_spine_def ex_world_def)

theorem max_files_limit_witness:
  "process_epub ex_env (Some 1) ex_spine ex_world = Inr (ex_world\<lparr>processed := take 1 ex_spine\<rparr>)
   \<and> stability_api ex_env = Some failing_api
   \<and> processed (ex_world\<lparr>processed := take 1 ex_spine\<rparr>)
       = processed ex_world @ take (nat 1) ex_spine"
  using max_files_limit[of 1 ex_spine ex_env ex_world "ex_world\<lparr>processed := take 1 ex_spine\<rparr>"]
  by (simp add: process_epub_def ex_env_def limit_spine_def ex_spine_def ex_world_def)


declare str_nat.simps [simp del]

lemma illustration_filename_0: "illustration_filename 0 = ''illustration_0.png''"
  by code_simp

lemma cache_path_0: "join local_cache_dir (illustration_filename 0) = ''./illustrations/illustration_0.png''"
  by (simp add: illustration_filename_0 join_def local_cache_dir_def)

lemma fetch_or_generate_dom:
  "dom (files w) \<subseteq> dom (files (fetch_or_generate api d src dest w))"
  by (auto simp: fetch_or_generate_def generate_illustration_def Let_def
      split: option.splits prod.splits if_splits)

lemma fetch_or_generate_hit:
  "files w src = Some cached \<Longrightarrow>
   fetch_or_generate api d src dest w = w\<lparr>files := (files w)(dest \<mapsto> cached)\<rparr>"
  by (simp add: fetch_or_generate_def)

lemma process_illustrations_all_cached:
  "(\<And>i. i < length ds \<Longrightarrow>
      join local_cache_dir (illustration_filename (illustration_counter w + i)) \<in> dom (files w)) \<Longrightarrow>
   image_prompts (snd (process_illustrations api dir rel ds (c, w))) = image_prompts w"
proof (induction ds arbitrary: c w)
  case Nil
  then show ?case by simp
next
  case (Cons d ds)
  let ?k = "illustration_counter w"
  let ?src = "join local_cache_dir (illustration_filename ?k)"
  let ?dest = "join dir (illustration_filename ?k)"
  from Cons.prems[of 0] obtain cached where hit: "files w ?src = Some cached" by auto
  let ?w2 = "w\<lparr>illustration_counter := ?k + 1, files := (files w)(?dest \<mapsto> cached)\<rparr>"
  have step: "illustrate_one api dir rel d (c, w)
      = (replace_marker c rel (illustration_filename ?k) d, ?w2)"
    using hit by (simp add: illustrate_one_def Let_def fetch_or_generate_hit)
  have "image_prompts (snd (process_illustrations api dir rel ds
          (replace_marker c rel (illustration_filename ?k) d, ?w2))) = image_prompts ?w2"
  proof (rule Cons.IH)
    fix i assume "i < length ds"
    then have "join local_cache_dir (illustration_filename (?k + Suc i)) \<in> dom (files w)"
      using Cons.prems[of "Suc i"] by simp
    then show "join local_cache_dir (illustration_filename (illustration_counter ?w2 + i))
        \<in> dom (files ?w2)" by auto
  qed
  then show ?case using step by simp
qed

text \<open>
  C3: for every generation index, when the cache directory holds the file
  \<open>illustration_<index>.png\<close>, the image service is not called for that index (the list of
  prompts sent is unchanged) and the cached bytes are what the destination path holds
  afterwards. The name of the cache file is computed from the index alone: the effect on
  the files is the same for every description and content.
\<close>

theorem cache_hit_skips_service:
  assumes "files w (join local_cache_dir (illustration_filename (illustration_counter w))) = Some cached"
  shows "snd (illustrate_one api images_dir rel d (content, w))
           = w\<lparr>illustration_counter := illustration_counter w + 1,
               files := (files w)(join images_dir (illustration_filename (illustration_counter w)) \<mapsto> cached)\<rparr>
       \<and> image_prompts (snd (illustrate_one api images_dir rel d (content, w))) = image_prompts w
       \<and> files (snd (illustrate_one api images_dir rel d (content, w)))
            (join images_dir (illustration_filename (illustration_counter w))) = Some cached
       \<and> snd (illustrate_one api images_dir rel d (content, w))
            = snd (illustrate_one api images_dir rel d' (content', w))"
  using assms by (simp add: illustrate_one_def Let_def fetch_or_generate_hit)

theorem cache_hit_skips_service_witness:
  "image_prompts (snd (illustrate_one (Some failing_api) ''/tmp/epub_extract_1/OEBPS/Images'' ''Images''
       ''a cat'' (ex_twice, ex_cached_world))) = []
   \<and> files (snd (illustrate_one (Some failing_api) ''/tmp/epub_extract_1/OEBPS/Images'' ''Images''
       ''a cat'' (ex_twice, ex_cached_world))) ''/tmp/epub_extract_1/OEBPS/Images/illustration_0.png''
       = Some ''PNG0''"
proof -
  have k: "illustration_counter ex_cached_world = 0"
    by (simp add: ex_cached_world_def ex_world_def)
  have hit: "files ex_cached_world (join local_cache_dir (illustration_filename (illustration_counter ex_cached_world)))
      = Some ''PNG0''"
    by (simp add: k cache_path_0) (simp add: ex_cached_world_def)
  have p: "image_prompts ex_cached_world = []"
    by (simp add: ex_cached_world_def ex_world_def)
  have d: "join ''/tmp/epub_extract_1/OEBPS/Images'' (illustration_filename 0)
      = ''/tmp/epub_extract_1/OEBPS/Images/illustration_0.png''"
    by (simp add: illustration_filename_0 join_def)
  show ?thesis
    using cache_hit_skips_service[OF hit, of "Some failing_api" "''/tmp/epub_extract_1/OEBPS/Images''"
        "''Images''" "''a cat''" ex_twice "''a cat''" ex_twice] p k d
    by simp
qed


lemma generate_illustration_fails_world:
  "fst (generate_illustration d dest api w) = False \<Longrightarrow>
   files (snd (generate_illustration d dest api w)) = files w"
  by (auto simp: generate_illustration_def Let_def split: option.splits)

lemma fetch_or_generate_failure:
  assumes "files w src = None" and "fst (generate_illustration d dest api w) = False"
  shows "files (fetch_or_generate api d src dest w) = files w"
  using assms generate_illustration_fails_world[of d dest api w]
  by (auto simp: fetch_or_generate_def split: prod.splits)

lemma replace_marker_first:
  "find_str (marker_text d) content = Some i \<Longrightarrow>
   replace_marker content rel fn d
     = take i content @ img_tag rel fn d
       @ replace_marker (drop (i + length (marker_text d)) content) rel fn d"
  using replace_from_first[OF marker_text_nonempty, of d content i "img_tag rel fn d"]
  by (simp add: replace_marker_def str_replace_def marker_text_nonempty)

lemma replace_marker_absent:
  "find_str (marker_text d) content = None \<Longrightarrow> replace_marker content rel fn d = content"
  by (simp add: replace_marker_def str_replace_def marker_text_nonempty replace_from_absent)

text \<open>
  C1 (as amended): when the generation of an illustration fails (no cache entry for its
  index and no image from the service), no file is written, neither the image nor a cache
  entry, and the content is rewritten exactly as after a success: it is the result of
  replacing the exact marker text of that description, so that where this text occurs the
  first occurrence gives way to the image reference (whose file does not exist) and the
  text after it is treated in the same way.
\<close>

theorem failed_generation_still_replaces:
  assumes miss: "files w (join local_cache_dir (illustration_filename (illustration_counter w))) = None"
    and failed: "fst (generate_illustration d (join images_dir (illustration_filename (illustration_counter w)))
                   api (w\<lparr>illustration_counter := illustration_counter w + 1\<rparr>)) = False"
  shows "files (snd (illustrate_one api images_dir rel d (content, w))) = files w
       \<and> fst (illustrate_one api images_dir rel d (content, w))
           = replace_marker content rel (illustration_filename (illustration_counter w)) d
       \<and> (find_str (marker_text d) content = Some i \<longrightarrow>
            fst (illustrate_one api images_dir rel d (content, w))
              = take i content @ img_tag rel (illustration_filename (illustration_counter w)) d
                @ replace_marker (drop (i + length (marker_text d)) content) rel
                    (illustration_filename (illustration_counter w)) d)"
proof -
  let ?w1 = "w\<lparr>illustration_counter := illustration_counter w + 1\<rparr>"
  let ?fn = "illustration_filename (illustration_counter w)"
  have "files (fetch_or_generate api d (join local_cache_dir ?fn) (join images_dir ?fn) ?w1) = files ?w1"
    using miss failed by (intro fetch_or_generate_failure) simp_all
  then have 1: "files (snd (illustrate_one api images_dir rel d (content, w))) = files w"
    by (simp add: illustrate_one_def Let_def)
  have 2: "fst (illustrate_one api images_dir rel d (content, w)) = replace_marker content rel ?fn d"
    by (simp add: illustrate_one_def Let_def)
  show ?thesis using 1 2 replace_marker_first[of d content i rel ?fn] by simp
qed

text \<open>
  The cache is empty and the service delivers no image, yet the marker, written in the
  exact shape, is gone from the rewritten content.
\<close>

theorem failed_generation_counterexample:
  "files ex_world (join local_cache_dir (illustration_filename (illustration_counter ex_world))) = None
   \<and> fst (generate_illustration ''a cat'' (join ''/tmp/epub_extract_1/OEBPS/Images'' (illustration_filename 0))
            (Some failing_api) (ex_world\<lparr>illustration_counter := 1\<rparr>)) = False
   \<and> fst (illustrate_one (Some failing_api) ''/tmp/epub_extract_1/OEBPS/Images'' ''Images'' ''a cat''
            (''<p>x</p><!-- illustration: a cat -->'', ex_world))
       = ''<p>x</p><p><img src='' @ [CHR 0x27] @ ''Images/illustration_0.png'' @ [CHR 0x27]
           @ '' alt='' @ [CHR 0x27] @ ''a cat'' @ [CHR 0x27] @ '' /></p>''
   \<and> \<not> contains (marker_text ''a cat'')
         (fst (illustrate_one (Some failing_api) ''/tmp/epub_extract_1/OEBPS/Images'' ''Images'' ''a cat''
            (''<p>x</p><!-- illustration: a cat -->'', ex_world)))"
proof -
  have k: "illustration_counter ex_world = 0" by (simp add: ex_world_def)
  have 1: "files ex_world (join local_cache_dir (illustration_filename (illustration_counter ex_world))) = None"
    by (simp add: k cache_path_0) (simp add: ex_world_def)
  have 2: "fst (generate_illustration ''a cat'' (join ''/tmp/epub_extract_1/OEBPS/Images'' (illustration_filename 0))
            (Some failing_api) (ex_world\<lparr>illustration_counter := 1\<rparr>)) = False"
    by (simp add: generate_illustration_def failing_api_def Let_def)
  have r: "replace_marker ''<p>x</p><!-- illustration: a cat -->'' ''Images'' ''illustration_0.png'' ''a cat''
     = ''<p>x</p><p><img src='' @ [CHR 0x27] @ ''Images/illustration_0.png'' @ [CHR 0x27]
           @ '' alt='' @ [CHR 0x27] @ ''a cat'' @ [CHR 0x27] @ '' /></p>''"
    by code_simp
  have 3: "fst (illustrate_one (Some failing_api) ''/tmp/epub_extract_1/OEBPS/Images'' ''Images'' ''a cat''
            (''<p>x</p><!-- illustration: a cat -->'', ex_world))
       = ''<p>x</p><p><img src='' @ [CHR 0x27] @ ''Images/illustration_0.png'' @ [CHR 0x27]
           @ '' alt='' @ [CHR 0x27] @ ''a cat'' @ [CHR 0x27] @ '' /></p>''"
    unfolding illustrate_one_def Let_def fst_conv snd_conv k illustration_filename_0 by (rule r)
  have 4: "\<not> contains (marker_text ''a cat'')
     (''<p>x</p><p><img src='' @ [CHR 0x27] @ ''Images/illustration_0.png'' @ [CHR 0x27]
           @ '' alt='' @ [CHR 0x27] @ ''a cat'' @ [CHR 0x27] @ '' /></p>'')"
    by code_simp
  show ?thesis using 1 2 3 4 by simp
qed

theorem failed_generation_still_replaces_witness:
  "files (snd (illustrate_one (Some failing_api) ''/tmp/epub_extract_1/OEBPS/Images'' ''Images'' ''a cat''
            (''<p>x</p><!-- illustration: a cat -->'', ex_world))) = files ex_world
   \<and> fst (illustrate_one (Some failing_api) ''/tmp/epub_extract_1/OEBPS/Images'' ''Images'' ''a cat''
            (''<p>x</p><!-- illustration: a cat -->'', ex_world))
       = replace_marker ''<p>x</p><!-- illustration: a cat -->'' ''Images'' ''illustration_0.png'' ''a cat''"
proof -
  have k: "illustration_counter ex_world = 0" by (simp add: ex_world_def)
  have 1: "files ex_world (join local_cache_dir (illustration_filename (illustration_counter ex_world))) = None"
    by (simp add: k cache_path_0) (simp add: ex_world_def)
  have 2: "fst (generate_illustration ''a cat''
            (join ''/tmp/epub_extract_1/OEBPS/Images'' (illustration_filename (illustration_counter ex_world)))
            (Some failing_api) (ex_world\<lparr>illustration_counter := illustration_counter ex_world + 1\<rparr>)) = False"
    by (simp add: generate_illustration_def failing_api_def Let_def)
  show ?thesis
    using failed_generation_still_replaces[OF 1 2, where rel = "''Images''"
        and content = "''<p>x</p><!-- illustration: a cat -->''" and i = 0]
    by (simp add: k illustration_filename_0)
qed

text \<open>
  C2 (as amended): one call of the replacement leaves a content without the marker as it
  is; otherwise it puts the block-level image reference (\<open>src\<close> the relative path and file
  name, \<open>alt\<close> the HTML-escaped description) in the place of the first occurrence of the
  exact marker and goes on in the same way with the text after it, so that every
  occurrence met from left to right is replaced by the one call.
\<close>

theorem replace_marker_all_occurrences:
  "(find_str (marker_text d) content = None \<longrightarrow> replace_marker content rel fn d = content)
   \<and> (find_str (marker_text d) content = Some i \<longrightarrow>
        replace_marker content rel fn d
          = take i content
            @ (''<p><img src='' @ [CHR 0x27] @ rel @ ''/'' @ fn @ [CHR 0x27]
                @ '' alt='' @ [CHR 0x27] @ html_escape d @ [CHR 0x27] @ '' /></p>'')
            @ replace_marker (drop (i + length (marker_text d)) content) rel fn d)"
  using replace_marker_first[of d content i rel fn] replace_marker_absent[of d content rel fn]
  by (simp add: img_tag_def)

text \<open>
  One call on a content that marks the same description twice replaces both markers; the
  second one does not remain.
\<close>

theorem replace_marker_twice_counterexample:
  "replace_marker ex_twice ''Images'' ''illustration_0.png'' ''a cat''
     = img_tag ''Images'' ''illustration_0.png'' ''a cat'' @ ''<p>x</p>''
       @ img_tag ''Images'' ''illustration_0.png'' ''a cat''
   \<and> replace_marker ex_twice ''Images'' ''illustration_0.png'' ''a cat''
     \<noteq> img_tag ''Images'' ''illustration_0.png'' ''a cat'' @ ''<p>x</p>'' @ marker_text ''a cat''"
  by code_simp

theorem replace_marker_all_occurrences_witness:
  "replace_marker ''<p>x</p><!-- illustration: a cat -->'' ''Images'' ''illustration_0.png'' ''a cat''
     = ''<p>x</p>'' @ (''<p><img src='' @ [CHR 0x27] @ ''Images'' @ ''/'' @ ''illustration_0.png'' @ [CHR 0x27]
                @ '' alt='' @ [CHR 0x27] @ html_escape ''a cat'' @ [CHR 0x27] @ '' /></p>'')
       @ replace_marker [] ''Images'' ''illustration_0.png'' ''a cat''"
proof -
  have f: "find_str (marker_text ''a cat'') ''<p>x</p><!-- illustration: a cat -->'' = Some 8"
    by code_simp
  show ?thesis
    using replace_marker_all_occurrences[where d = "''a cat''"
        and content = "''<p>x</p><!-- illustration: a cat -->''" and i = 8
        and rel = "''Images''" and fn = "''illustration_0.png''"] f
    by (simp add: marker_text_def)
qed


lemma find_str_None_iff: "find_str sub s = None \<longleftrightarrow> \<not> sublist sub s"
  by (induction s) (auto simp: sublist_Cons_right)

lemma contains_iff_sublist: "contains sub s \<longleftrightarrow> sublist sub s"
  using find_str_None_iff[of sub s] by (simp add: contains_def)

lemma find_str_Some_prefix:
  "find_str sub s = Some i \<Longrightarrow> i \<le> length s \<and> prefix sub (drop i s)"
  by (induction s arbitrary: i) (auto split: if_splits)

lemma find_str_Some_bound:
  assumes "find_str sub s = Some i"
  shows "i + length sub \<le> length s"
proof -
  from find_str_Some_prefix[OF assms] have "i \<le> length s" "prefix sub (drop i s)" by auto
  then have "length sub \<le> length s - i" using prefix_length_le by fastforce
  with \<open>i \<le> length s\<close> show ?thesis by simp
qed

lemma find_str_least:
  "find_str sub s = Some i \<Longrightarrow> j < i \<Longrightarrow> \<not> prefix sub (drop j s)"
proof (induction s arbitrary: i j)
  case Nil
  then show ?case by (auto split: if_splits)
next
  case (Cons c cs)
  then show ?case by (cases j) (auto split: if_splits)
qed

lemma not_contains_drop: "\<not> contains sub s \<Longrightarrow> \<not> contains sub (drop n s)"
  unfolding contains_iff_sublist
  using sublist_drop sublist_order.order.trans by blast

lemma index_str_open:
  "find_str open_token line = Some i \<Longrightarrow> index_str line open_token 0 = Inr i"
  by (simp add: index_str_def)

lemma index_str_close:
  assumes "find_str open_token line = Some i"
  shows "index_str line close_token (i + length open_token)
     = (case find_str close_token (drop (i + length open_token) line) of
          None \<Rightarrow> Inl ValueError | Some k \<Rightarrow> Inr (i + length open_token + k))"
  using find_str_Some_bound[OF assms] by (simp add: index_str_def)

lemma extract_lines_Inr_iff:
  "(\<exists>ds. extract_lines ls acc = Inr ds) \<longleftrightarrow>
   (\<forall>line\<in>set ls. \<forall>i. find_str open_token line = Some i \<longrightarrow>
        contains close_token (drop (i + length open_token) line))"
proof (induction ls arbitrary: acc)
  case Nil
  then show ?case by simp
next
  case (Cons line ls)
  show ?case
  proof (cases "find_str open_token line")
    case None
    then show ?thesis using Cons.IH by (simp add: contains_def)
  next
    case (Some i)
    show ?thesis
    proof (cases "find_str close_token (drop (i + length open_token) line)")
      case None
      then show ?thesis using Some
        by (simp add: contains_def index_str_open index_str_close Let_def)
    next
      case (Some k)
      then show ?thesis using \<open>find_str open_token line = Some i\<close> Cons.IH
        by (simp add: contains_def index_str_open index_str_close Let_def)
    qed
  qed
qed

lemma extract_lines_error: "extract_lines ls acc = Inl e \<Longrightarrow> e = ValueError"
proof (induction ls arbitrary: acc)
  case Nil
  then show ?case by simp
next
  case (Cons line ls)
  show ?case
  proof (cases "find_str open_token line")
    case None
    then show ?thesis using Cons by (simp add: contains_def)
  next
    case (Some i)
    then show ?thesis using Cons
      by (auto simp: contains_def index_str_open index_str_close Let_def split: option.splits)
  qed
qed

text \<open>
  C10: the extraction returns a sequence exactly when every line that contains the opening
  token has a closing delimiter after the first opening token of that line; a line with the
  opening token and no closing delimiter at all makes it raise ValueError.
\<close>

theorem extraction_total_iff:
  "((\<exists>ds. extract_illustrations content = Inr ds) \<longleftrightarrow>
      (\<forall>line\<in>set (split_on CHR 0x0A content). \<forall>i. find_str open_token line = Some i \<longrightarrow>
          contains close_token (drop (i + length open_token) line)))
   \<and> ((\<exists>line\<in>set (split_on CHR 0x0A content).
          contains open_token line \<and> \<not> contains close_token line) \<longrightarrow>
        extract_illustrations content = Inl ValueError)"
proof -
  let ?ls = "split_on CHR 0x0A content"
  have 1: "(\<exists>ds. extract_illustrations content = Inr ds) \<longleftrightarrow>
      (\<forall>line\<in>set ?ls. \<forall>i. find_str open_token line = Some i \<longrightarrow>
          contains close_token (drop (i + length open_token) line))"
    unfolding extract_illustrations_def by (rule extract_lines_Inr_iff)
  have 2: "extract_illustrations content = Inl ValueError"
    if "\<exists>line\<in>set ?ls. contains open_token line \<and> \<not> contains close_token line"
  proof -
    from that obtain line where l: "line \<in> set ?ls" "contains open_token line"
      "\<not> contains close_token line" by auto
    from l(2) obtain i where i: "find_str open_token line = Some i"
      by (auto simp: contains_def)
    have "\<not> contains close_token (drop (i + length open_token) line)"
      using l(3) by (rule not_contains_drop)
    with l(1) i have "\<not> (\<exists>ds. extract_illustrations content = Inr ds)"
      unfolding 1 by blast
    then obtain e where "extract_illustrations content = Inl e"
      by (cases "extract_illustrations content") auto
    then show ?thesis
      using extract_lines_error[of ?ls "[]" e] by (simp add: extract_illustrations_def)
  qed
  from 1 2 show ?thesis by blast
qed

theorem extraction_total_iff_witness:
  "extract_illustrations ''<p>a</p><!-- illustration: a cat'' = Inl ValueError"
proof -
  have "''<p>a</p><!-- illustration: a cat'' \<in> set (split_on CHR 0x0A ''<p>a</p><!-- illustration: a cat'')"
    by simp
  moreover have "contains open_token ''<p>a</p><!-- illustration: a cat''"
    by code_simp
  moreover have "\<not> contains close_token ''<p>a</p><!-- illustration: a cat''"
    by code_simp
  ultimately show ?thesis
    using extraction_total_iff[of "''<p>a</p><!-- illustration: a cat''"] by blast
qed


lemma zip_epub_with_mimetype:
  "map_of epub_dir ''mimetype'' = Some (File d) \<Longrightarrow>
   zip_epub epub_dir
     = \<lparr>arcname = ''mimetype'', compress_type = ZIP_STORED, data = d\<rparr>
       # map (\<lambda>(rel_path, d). \<lparr>arcname = rel_path, compress_type = ZIP_DEFLATED, data = d\<rparr>)
           (filter (\<lambda>(rel_path, d). rel_path \<noteq> ''mimetype'') (walk [] epub_dir))"
  by (simp add: zip_epub_def)

text \<open>
  C5: when the root of the working tree has a file named \<open>mimetype\<close>, the first entry of
  the archive is named \<open>mimetype\<close> and is stored without compression; every other entry
  is deflated, is not named \<open>mimetype\<close> and carries a file of the tree under its path
  relative to the root, each such file being added; \<open>mimetype\<close> occurs exactly once.
\<close>

theorem mimetype_first_and_stored:
  assumes "map_of epub_dir ''mimetype'' = Some (File d)"
  shows "zip_epub epub_dir \<noteq> []
       \<and> hd (zip_epub epub_dir) = \<lparr>arcname = ''mimetype'', compress_type = ZIP_STORED, data = d\<rparr>
       \<and> (\<forall>e\<in>set (tl (zip_epub epub_dir)).
             compress_type e = ZIP_DEFLATED \<and> arcname e \<noteq> ''mimetype''
             \<and> (arcname e, data e) \<in> set (walk [] epub_dir))
       \<and> (\<forall>p\<in>set (walk [] epub_dir). fst p \<noteq> ''mimetype'' \<longrightarrow>
             \<lparr>arcname = fst p, compress_type = ZIP_DEFLATED, data = snd p\<rparr> \<in> set (tl (zip_epub epub_dir)))
       \<and> length (filter (\<lambda>e. arcname e = ''mimetype'') (zip_epub epub_dir)) = 1"
proof -
  let ?rest = "map (\<lambda>(rel_path, d). \<lparr>arcname = rel_path, compress_type = ZIP_DEFLATED, data = d\<rparr>)
           (filter (\<lambda>(rel_path, d). rel_path \<noteq> ''mimetype'') (walk [] epub_dir))"
  have z: "zip_epub epub_dir = \<lparr>arcname = ''mimetype'', compress_type = ZIP_STORED, data = d\<rparr> # ?rest"
    using assms by (rule zip_epub_with_mimetype)
  have r: "\<forall>e\<in>set ?rest. compress_type e = ZIP_DEFLATED \<and> arcname e \<noteq> ''mimetype''
             \<and> (arcname e, data e) \<in> set (walk [] epub_dir)"
    by (auto simp del: walk.simps)
  have c: "\<forall>p\<in>set (walk [] epub_dir). fst p \<noteq> ''mimetype'' \<longrightarrow>
             \<lparr>arcname = fst p, compress_type = ZIP_DEFLATED, data = snd p\<rparr> \<in> set ?rest"
    by (force simp del: walk.simps)
  have "filter (\<lambda>e. arcname e = ''mimetype'') ?rest = []"
    using r by (simp add: filter_empty_conv)
  then have n: "length (filter (\<lambda>e. arcname e = ''mimetype'') (zip_epub epub_dir)) = 1"
    unfolding z by simp
  show ?thesis using r c n unfolding z by (simp del: walk.simps)
qed

theorem mimetype_first_and_stored_witness:
  "zip_epub ex_tree \<noteq> []
   \<and> hd (zip_epub ex_tree) = \<lparr>arcname = ''mimetype'', compress_type = ZIP_STORED, data = ''application/epub+zip''\<rparr>
   \<and> length (filter (\<lambda>e. arcname e = ''mimetype'') (zip_epub ex_tree)) = 1
   \<and> map arcname (zip_epub ex_tree)
       = [''mimetype'', ''META-INF/container.xml'', ''OEBPS/content.opf'', ''OEBPS/Text/mimetype'']"
proof -
  have m: "map_of ex_tree ''mimetype'' = Some (File ''application/epub+zip'')"
    by (simp add: ex_tree_def)
  have a: "map arcname (zip_epub ex_tree)
       = [''mimetype'', ''META-INF/container.xml'', ''OEBPS/content.opf'', ''OEBPS/Text/mimetype'']"
    by (simp add: zip_epub_def ex_tree_def rel_join_def)
  show ?thesis using mimetype_first_and_stored[OF m] a by simp
qed


lemma spine_loop_error: "spine_loop manifest opf_path refs acc = Inl e \<Longrightarrow> e = KeyError"
  by (induction refs arbitrary: acc) (auto split: option.splits)

lemma spine_loop_resolved:
  "(\<forall>itemref\<in>set refs. \<exists>idref href.
       map_of (attrib itemref) ''idref'' = Some idref \<and> manifest idref = Some href) \<Longrightarrow>
   spine_loop manifest opf_path refs acc
     = Inr (acc @ map (\<lambda>itemref. normpath (join (dirname opf_path)
               (the (manifest (the (map_of (attrib itemref) ''idref'')))))) refs)"
  by (induction refs arbitrary: acc) auto

lemma spine_loop_unresolved:
  "\<exists>itemref\<in>set refs. \<exists>idref. map_of (attrib itemref) ''idref'' = Some idref \<and> manifest idref = None \<Longrightarrow>
   spine_loop manifest opf_path refs acc = Inl KeyError"
proof (induction refs arbitrary: acc)
  case Nil
  then show ?case by simp
next
  case (Cons r refs)
  show ?case
  proof (cases "\<exists>idref. map_of (attrib r) ''idref'' = Some idref \<and> manifest idref = None")
    case True
    then show ?thesis by auto
  next
    case False
    with Cons.prems have "\<exists>itemref\<in>set refs. \<exists>idref.
        map_of (attrib itemref) ''idref'' = Some idref \<and> manifest idref = None" by auto
    from Cons.IH[OF this] show ?thesis by (auto split: option.splits)
  qed
qed

lemma build_manifest_result:
  "build_manifest items m0 = Inr m \<Longrightarrow>
   m = m0 ++ map_of (rev (map (\<lambda>item. (the (map_of (attrib item) ''id''),
                                         the (map_of (attrib item) ''href''))) items))"
proof (induction items arbitrary: m0)
  case Nil
  then show ?case by simp
next
  case (Cons item items)
  from Cons.prems obtain href ident where a: "map_of (attrib item) ''href'' = Some href"
     "map_of (attrib item) ''id'' = Some ident"
     "build_manifest items (m0(ident \<mapsto> href)) = Inr m"
    by (auto split: option.splits)
  let ?X = "map_of (rev (map (\<lambda>item. (the (map_of (attrib item) ''id''),
                                         the (map_of (attrib item) ''href''))) items))"
  have "m = m0(ident \<mapsto> href) ++ ?X" using Cons.IH[OF a(3)] .
  also have "m0(ident \<mapsto> href) = m0 ++ [ident \<mapsto> href]" by simp
  also have "(m0 ++ [ident \<mapsto> href]) ++ ?X = m0 ++ ([ident \<mapsto> href] ++ ?X)" by simp
  also have "[ident \<mapsto> href] ++ ?X
      = map_of (rev (map (\<lambda>item. (the (map_of (attrib item) ''id''),
                                         the (map_of (attrib item) ''href''))) (item # items)))"
    using a(1,2) by simp
  finally show ?case .
qed

text \<open>
  C4: for an archive whose container names the OPF document and whose OPF document has a
  manifest and a spine, the resolution returns one path for each child of the spine, in
  document order: the \<open>idref\<close> looked up in the manifest dictionary (which maps the
  \<open>id\<close> of each manifest item to its \<open>href\<close>), the \<open>href\<close> joined to the directory of the
  OPF document and normalised. An \<open>idref\<close> without a manifest entry makes the resolution
  fail; the exception of the code is the KeyError of the dictionary lookup, which is what
  the specification calls MalformedPackage.
\<close>

theorem spine_in_document_order:
  assumes "parse (join (join tmp_dir ''META-INF'') ''container.xml'') = Some root"
    and "find_descendant container_ns ''rootfile'' root = Some rootfile"
    and "map_of (attrib rootfile) ''full-path'' = Some opf_rel_path"
    and "parse (join tmp_dir opf_rel_path) = Some opf_root"
    and "find_child (opf_namespace opf_root) ''manifest'' opf_root = Some manifest_elem"
    and "build_manifest (children manifest_elem) Map.empty = Inr manifest"
    and "find_child (opf_namespace opf_root) ''spine'' opf_root = Some spine_elem"
  shows "((\<forall>itemref\<in>set (children spine_elem). \<exists>idref href.
             map_of (attrib itemref) ''idref'' = Some idref \<and> manifest idref = Some href) \<longrightarrow>
          extract_epub_spine_items tmp_dir parse
            = Inr (tmp_dir,
                map (\<lambda>itemref. normpath (join (dirname (join tmp_dir opf_rel_path))
                        (the (manifest (the (map_of (attrib itemref) ''idref''))))))
                  (children spine_elem)))
       \<and> ((\<exists>itemref\<in>set (children spine_elem). \<exists>idref.
             map_of (attrib itemref) ''idref'' = Some idref \<and> manifest idref = None) \<longrightarrow>
          extract_epub_spine_items tmp_dir parse = Inl KeyError)
       \<and> manifest = map_of (rev (map (\<lambda>item. (the (map_of (attrib item) ''id''),
                                                  the (map_of (attrib item) ''href'')))
                                   (children manifest_elem)))"
proof -
  have e: "extract_epub_spine_items tmp_dir parse
      = (case spine_loop manifest (join tmp_dir opf_rel_path) (children spine_elem) [] of
           Inl e \<Rightarrow> Inl e | Inr spine_items \<Rightarrow> Inr (tmp_dir, spine_items))"
    using assms by (simp add: extract_epub_spine_items_def Let_def)
  have 1: "(\<forall>itemref\<in>set (children spine_elem). \<exists>idref href.
             map_of (attrib itemref) ''idref'' = Some idref \<and> manifest idref = Some href) \<longrightarrow>
          extract_epub_spine_items tmp_dir parse
            = Inr (tmp_dir,
                map (\<lambda>itemref. normpath (join (dirname (join tmp_dir opf_rel_path))
                        (the (manifest (the (map_of (attrib itemref) ''idref''))))))
                  (children spine_elem))"
    unfolding e by (auto simp: spine_loop_resolved)
  have 2: "(\<exists>itemref\<in>set (children spine_elem). \<exists>idref.
             map_of (attrib itemref) ''idref'' = Some idref \<and> manifest idref = None) \<longrightarrow>
          extract_epub_spine_items tmp_dir parse = Inl KeyError"
    unfolding e by (auto simp: spine_loop_unresolved)
  have 3: "manifest = map_of (rev (map (\<lambda>item. (the (map_of (attrib item) ''id''),
                                                  the (map_of (attrib item) ''href'')))
                                   (children manifest_elem)))"
    using build_manifest_result[OF assms(6)] by simp
  from 1 2 3 show ?thesis by blast
qed

theorem spine_in_document_order_witness:
  "extract_epub_spine_items ''/tmp/epub_extract_1'' ex_parse
     = Inr (''/tmp/epub_extract_1'',
            [''/tmp/epub_extract_1/OEBPS/ch2.xhtml'', ''/tmp/epub_extract_1/OEBPS/Text/ch1.xhtml''])"
proof -
  have j1: "join (join ''/tmp/epub_extract_1'' ''META-INF'') ''container.xml''
      = ''/tmp/epub_extract_1/META-INF/container.xml''" by (simp add: join_def)
  have j2: "join ''/tmp/epub_extract_1'' ''OEBPS/content.opf'' = ''/tmp/epub_extract_1/OEBPS/content.opf''"
    by (simp add: join_def)
  have a1: "ex_parse (join (join ''/tmp/epub_extract_1'' ''META-INF'') ''container.xml'') = Some ex_container"
    unfolding j1 by (simp add: ex_parse_def)
  have a2: "find_descendant container_ns ''rootfile'' ex_container
      = Some (Element ''{urn:oasis:names:tc:opendocument:xmlns:container}rootfile''
             [(''full-path'', ''OEBPS/content.opf''),
              (''media-type'', ''application/oebps-package+xml'')] [])"
    by code_simp
  have a3: "map_of (attrib (Element ''{urn:oasis:names:tc:opendocument:xmlns:container}rootfile''
             [(''full-path'', ''OEBPS/content.opf''),
              (''media-type'', ''application/oebps-package+xml'')] [])) ''full-path'' = Some ''OEBPS/content.opf''"
    by simp
  have a4: "ex_parse (join ''/tmp/epub_extract_1'' ''OEBPS/content.opf'') = Some ex_opf"
    unfolding j2 by (simp add: ex_parse_def)
  have a5: "find_child (opf_namespace ex_opf) ''manifest'' ex_opf = Some ex_manifest"
    by code_simp
  have a6: "build_manifest (children ex_manifest) Map.empty = Inr ex_manifest_dict"
    by (simp add: ex_manifest_def ex_manifest_dict_def)
  have a7: "find_child (opf_namespace ex_opf) ''spine'' ex_opf = Some ex_spine_elem"
    by code_simp
  have r: "\<forall>itemref\<in>set (children ex_spine_elem). \<exists>idref href.
             map_of (attrib itemref) ''idref'' = Some idref \<and> ex_manifest_dict idref = Some href"
    by (simp add: ex_spine_elem_def ex_manifest_dict_def)
  have m: "map (\<lambda>itemref. normpath (join (dirname (join ''/tmp/epub_extract_1'' ''OEBPS/content.opf''))
                        (the (ex_manifest_dict (the (map_of (attrib itemref) ''idref''))))))
                  (children ex_spine_elem)
      = [''/tmp/epub_extract_1/OEBPS/ch2.xhtml'', ''/tmp/epub_extract_1/OEBPS/Text/ch1.xhtml'']"
  proof -
    have d: "dirname ''/tmp/epub_extract_1/OEBPS/content.opf'' = ''/tmp/epub_extract_1/OEBPS''"
      by code_simp
    have n1: "normpath (join ''/tmp/epub_extract_1/OEBPS'' ''Text/../ch2.xhtml'') = ''/tmp/epub_extract_1/OEBPS/ch2.xhtml''"
      by code_simp
    have n2: "normpath (join ''/tmp/epub_extract_1/OEBPS'' ''Text/ch1.xhtml'') = ''/tmp/epub_extract_1/OEBPS/Text/ch1.xhtml''"
      by code_simp
    show ?thesis unfolding j2 d by (simp add: ex_spine_elem_def ex_manifest_dict_def n1 n2)
  qed
  show ?thesis
    using spine_in_document_order[OF a1 a2 a3 a4 a5 a6 a7] r unfolding m by blast
qed


lemma sublist_sep:
  assumes "c \<notin> set p"
  shows "sublist p (xs @ c # ys) \<longleftrightarrow> sublist p xs \<or> sublist p ys"
proof
  assume "sublist p (xs @ c # ys)"
  then consider "sublist p xs" | "sublist p (c # ys)"
    | p1 p2 where "p = p1 @ p2" "suffix p1 xs" "prefix p2 (c # ys)"
    unfolding sublist_append by blast
  then show "sublist p xs \<or> sublist p ys"
  proof cases
    case 1
    then show ?thesis by simp
  next
    case 2
    then have "prefix p (c # ys) \<or> sublist p ys" by (simp add: sublist_Cons_right)
    then show ?thesis
    proof
      assume "prefix p (c # ys)"
      then have "p = []" using assms by (cases p) auto
      then show ?thesis by simp
    qed simp
  next
    case 3
    then have "p2 = []" using assms by (cases p2) auto
    then show ?thesis using 3 by (auto simp: suffix_imp_sublist)
  qed
next
  assume "sublist p xs \<or> sublist p ys"
  then show "sublist p (xs @ c # ys)"
    by (auto simp: sublist_append sublist_Cons_right)
qed

lemma sublist_fresh_last:
  assumes "p \<noteq> []" "last p \<notin> set zs"
  shows "sublist p (xs @ zs) \<longleftrightarrow> sublist p xs"
proof
  assume "sublist p (xs @ zs)"
  then consider "sublist p xs" | "sublist p zs"
    | p1 p2 where "p = p1 @ p2" "suffix p1 xs" "prefix p2 zs"
    unfolding sublist_append by blast
  then show "sublist p xs"
  proof cases
    case 1
    then show ?thesis .
  next
    case 2
    then have "set p \<subseteq> set zs" by (rule set_mono_sublist)
    moreover have "last p \<in> set p" using assms(1) by simp
    ultimately have False using assms(2) by (simp add: subset_iff)
    then show ?thesis ..
  next
    case 3
    show ?thesis
    proof (cases "p2 = []")
      case True
      then have "suffix p xs" using 3 by simp
      then show ?thesis by (rule suffix_imp_sublist)
    next
      case False
      then have "last p = last p2" using 3(1) by simp
      moreover have "last p2 \<in> set p2" using False by simp
      moreover have "set p2 \<subseteq> set zs" using 3(3) by (rule set_mono_prefix)
      ultimately have False using assms(2) by (simp add: subset_iff)
      then show ?thesis ..
    qed
  qed
next
  assume "sublist p xs"
  then show "sublist p (xs @ zs)"
    by (simp add: sublist_append)
qed

lemma sublist_fresh_hd:
  "c \<notin> set xs \<Longrightarrow> sublist (c # r) (xs @ ys) \<longleftrightarrow> sublist (c # r) ys"
  by (induction xs) (auto simp: sublist_Cons_right)

lemma find_str_append_first:
  assumes "p \<noteq> []" "\<not> sublist p (xs @ butlast p)"
  shows "find_str p (xs @ p @ ys) = Some (length xs)"
  using assms(2)
proof (induction xs)
  case Nil
  then show ?case using assms(1) by (cases p) auto
next
  case (Cons x xs)
  have np: "\<not> prefix p (x # xs @ p @ ys)"
  proof
    assume a: "prefix p (x # xs @ p @ ys)"
    then have t: "take (length p) (x # xs @ p @ ys) = p"
      by (auto simp: prefix_def)
    have "(x # xs @ butlast p) @ ([last p] @ ys) = x # xs @ (butlast p @ [last p]) @ ys"
      by simp
    also have "\<dots> = x # xs @ p @ ys" using assms(1) by simp
    finally have e: "x # xs @ p @ ys = (x # xs @ butlast p) @ ([last p] @ ys)" by simp
    have l: "length p \<le> length (x # xs @ butlast p)" by simp
    have "take (length p) ((x # xs @ butlast p) @ ([last p] @ ys))
        = take (length p) (x # xs @ butlast p)"
      using l by (simp only: take_append) simp
    then have "take (length p) (x # xs @ butlast p) = p" using t e by simp
    then have "prefix p (x # xs @ butlast p)" by (metis take_is_prefix)
    then have "sublist p ((x # xs) @ butlast p)" by (simp add: prefix_imp_sublist)
    with Cons.prems show False by simp
  qed
  have "\<not> sublist p (xs @ butlast p)"
    using Cons.prems by (auto simp: sublist_Cons_right)
  from Cons.IH[OF this] np show ?case by simp
qed

lemma open_token_facts:
  "open_token \<noteq> []" "last open_token \<notin> set (butlast open_token)"
  "open_token = CHR ''<'' # tl open_token" "CHR ''<'' \<notin> set (tl open_token)"
  "CHR 0x0A \<notin> set open_token" "length open_token = 18"
  by (simp_all add: open_token_def)

lemma close_token_facts:
  "close_token \<noteq> []" "last close_token \<notin> set (butlast close_token)"
  "CHR 0x0A \<notin> set close_token" "CHR '' '' \<notin> set close_token" "length close_token = 3"
  by (simp_all add: close_token_def)

lemma find_open_first:
  assumes "\<not> sublist open_token pre"
  shows "find_str open_token (pre @ open_token @ ys) = Some (length pre)"
proof -
  have "\<not> sublist open_token (pre @ butlast open_token)"
    using assms sublist_fresh_last[OF open_token_facts(1,2), of pre] by simp
  then show ?thesis by (rule find_str_append_first[OF open_token_facts(1)])
qed

lemma find_close_first:
  assumes "\<not> sublist close_token w"
  shows "find_str close_token (w @ close_token @ ys) = Some (length w)"
proof -
  have "\<not> sublist close_token (w @ butlast close_token)"
    using assms sublist_fresh_last[OF close_token_facts(1,2), of w] by simp
  then show ?thesis by (rule find_str_append_first[OF close_token_facts(1)])
qed

lemma split_on_nonempty [simp]: "split_on c s \<noteq> []"
  by (induction s) (auto split: list.splits)

lemma split_on_no_sep: "c \<notin> set s \<Longrightarrow> split_on c s = [s]"
  by (induction s) auto

lemma split_on_append:
  "split_on c (xs @ ys)
     = butlast (split_on c xs) @ (last (split_on c xs) @ hd (split_on c ys)) # tl (split_on c ys)"
proof (induction xs)
  case Nil
  then show ?case by simp
next
  case (Cons x xs)
  obtain l ls where s: "split_on c xs = l # ls"
    using split_on_nonempty[of c xs] by (cases "split_on c xs") auto
  show ?case
  proof (cases "x = c")
    case True
    then show ?thesis using Cons.IH s by simp
  next
    case False
    then show ?thesis using Cons.IH s by (cases ls) auto
  qed
qed

lemma hd_split_prefix: "prefix (hd (split_on c s)) s"
proof (induction s)
  case Nil
  then show ?case by simp
next
  case (Cons x s)
  obtain l ls where s: "split_on c s = l # ls"
    using split_on_nonempty[of c s] by (cases "split_on c s") auto
  then show ?case using Cons by auto
qed

lemma split_on_sublist: "l \<in> set (split_on c s) \<Longrightarrow> sublist l s"
proof (induction s arbitrary: l)
  case Nil
  then show ?case by simp
next
  case (Cons x s)
  obtain l0 ls where s: "split_on c s = l0 # ls"
    using split_on_nonempty[of c s] by (cases "split_on c s") auto
  have p: "prefix l0 s" using hd_split_prefix[of c s] s by simp
  show ?case
  proof (cases "x = c")
    case True
    then have "l = [] \<or> l \<in> set (split_on c s)" using Cons.prems by auto
    then show ?thesis using Cons.IH by (auto simp: sublist_Cons_right)
  next
    case False
    then have "l = x # l0 \<or> l \<in> set ls" using Cons.prems s by auto
    then show ?thesis
    proof
      assume "l = x # l0"
      then have "prefix l (x # s)" using p by simp
      then show ?thesis by (rule prefix_imp_sublist)
    next
      assume "l \<in> set ls"
      then have "sublist l s" using Cons.IH s by simp
      then show ?thesis by (simp add: sublist_Cons_right)
    qed
  qed
qed

lemma extract_lines_no_token:
  "(\<And>l. l \<in> set ls \<Longrightarrow> \<not> contains open_token l) \<Longrightarrow> extract_lines ls acc = Inr acc"
  by (induction ls arbitrary: acc) auto

lemma extract_lines_append:
  "extract_lines xs acc = Inr acc' \<Longrightarrow> extract_lines (xs @ ys) acc = extract_lines ys acc'"
proof (induction xs arbitrary: acc)
  case Nil
  then show ?case by simp
next
  case (Cons x xs)
  show ?case
  proof (cases "contains open_token x")
    case False
    then show ?thesis using Cons by simp
  next
    case True
    then show ?thesis using Cons.prems Cons.IH
      by (auto simp: Let_def split: sum.splits)
  qed
qed

lemma extract_marker_line:
  assumes l1: "\<not> sublist open_token l1" and w: "\<not> sublist close_token w"
  shows "extract_lines ((l1 @ open_token @ w @ close_token @ l2) # rest) acc
       = extract_lines rest (acc @ [strip w])"
proof -
  let ?L = "l1 @ open_token @ w @ close_token @ l2"
  have f: "find_str open_token ?L = Some (length l1)"
    using l1 by (rule find_open_first)
  have c: "contains open_token ?L" using f by (simp add: contains_def)
  have i: "index_str ?L open_token 0 = Inr (length l1)"
    using f by (rule index_str_open)
  have d: "drop (length l1 + length open_token) ?L = w @ close_token @ l2" by simp
  have fc: "find_str close_token (drop (length l1 + length open_token) ?L) = Some (length w)"
    unfolding d using w by (rule find_close_first)
  have j: "index_str ?L close_token (length l1 + length open_token)
      = Inr (length l1 + length open_token + length w)"
    using index_str_close[OF f] fc by simp
  have s: "slice ?L (length l1 + length open_token) (length l1 + length open_token + length w) = w"
    by (simp add: slice_def)
  show ?thesis
    by (simp only: extract_lines.simps c i j s if_True sum.case Let_def)
qed

lemma extract_single_marker:
  assumes pre: "\<not> sublist open_token pre" and post: "\<not> sublist open_token post"
    and nl: "CHR 0x0A \<notin> set w" and w: "\<not> sublist close_token w"
  shows "extract_illustrations (pre @ open_token @ w @ close_token @ post) = Inr [strip w]"
proof -
  let ?nl = "CHR 0x0A"
  let ?m = "open_token @ w @ close_token"
  let ?Sp = "split_on ?nl pre" and ?Sq = "split_on ?nl post"
  have m: "split_on ?nl ?m = [?m]"
    using nl open_token_facts(5) close_token_facts(3) by (intro split_on_no_sep) simp
  have "split_on ?nl (?m @ post) = (?m @ hd ?Sq) # tl ?Sq"
    using split_on_append[of ?nl ?m post] m by simp
  then have lines: "split_on ?nl (pre @ ?m @ post)
      = butlast ?Sp @ (last ?Sp @ ?m @ hd ?Sq) # tl ?Sq"
    using split_on_append[of ?nl pre "?m @ post"] by simp
  have a: "\<not> contains open_token l" if "l \<in> set (butlast ?Sp)" for l
  proof -
    have "l \<in> set ?Sp" using that by (rule in_set_butlastD)
    then have "sublist l pre" by (rule split_on_sublist)
    then show ?thesis using pre sublist_order.order.trans
      unfolding contains_iff_sublist by blast
  qed
  have b: "\<not> contains open_token l" if "l \<in> set (tl ?Sq)" for l
  proof -
    have "l \<in> set ?Sq" using that by (metis list.set_sel(2) split_on_nonempty)
    then have "sublist l post" by (rule split_on_sublist)
    then show ?thesis using post sublist_order.order.trans
      unfolding contains_iff_sublist by blast
  qed
  have l1: "\<not> sublist open_token (last ?Sp)"
  proof -
    have "last ?Sp \<in> set ?Sp" by simp
    then have "sublist (last ?Sp) pre" by (rule split_on_sublist)
    then show ?thesis using pre sublist_order.order.trans by blast
  qed
  have 1: "extract_lines (butlast ?Sp) [] = Inr []"
    using a by (rule extract_lines_no_token)
  have 2: "extract_lines ((last ?Sp @ open_token @ w @ close_token @ hd ?Sq) # tl ?Sq) []
      = extract_lines (tl ?Sq) ([] @ [strip w])"
    using l1 w by (rule extract_marker_line)
  have 3: "extract_lines (tl ?Sq) [strip w] = Inr [strip w]"
    using b by (rule extract_lines_no_token)
  have "extract_illustrations (pre @ ?m @ post)
      = extract_lines ((last ?Sp @ ?m @ hd ?Sq) # tl ?Sq) []"
    unfolding extract_illustrations_def lines using extract_lines_append[OF 1] by simp
  then show ?thesis using 2 3 by simp
qed

lemma isspace_space [simp]: "isspace CHR '' ''"
  by (simp add: isspace_def)

lemma length_strip_le: "length (strip s) \<le> length (dropWhile isspace s)"
  by (simp add: strip_def) (metis length_dropWhile_le length_rev)

lemma strip_fixed:
  assumes "strip D = D" "D \<noteq> []"
  shows "\<not> isspace (hd D) \<and> \<not> isspace (last D)"
proof -
  have h: "\<not> isspace (hd D)"
  proof
    assume sp: "isspace (hd D)"
    have "dropWhile isspace D = dropWhile isspace (tl D)"
      using assms(2) sp by (cases D) auto
    then have "length (dropWhile isspace D) \<le> length (tl D)"
      using length_dropWhile_le[of isspace "tl D"] by simp
    then have "length (strip D) < length D"
      using length_strip_le[of D] assms(2) by (cases D) auto
    then show False using assms(1) by simp
  qed
  then have dw: "dropWhile isspace D = D" using assms(2) by (cases D) auto
  have "\<not> isspace (last D)"
  proof
    assume sp: "isspace (last D)"
    have r: "rev D = last D # rev (butlast D)" using assms(2)
      by (metis append_butlast_last_id rev.simps(2) rev_append rev_singleton_conv append_Cons append_Nil)
    have "dropWhile isspace (rev D) = dropWhile isspace (rev (butlast D))"
      using sp by (simp add: r)
    then have "length (dropWhile isspace (rev D)) \<le> length (butlast D)"
      by (metis length_dropWhile_le length_rev)
    moreover have "length (butlast D) < length D" using assms(2) by (cases D) auto
    ultimately have "length (dropWhile isspace (rev D)) < length D" by (rule le_less_trans)
    then have "length (strip D) < length D"
      by (simp only: strip_def dw length_rev)
    then show False using assms(1) by simp
  qed
  with h show ?thesis by simp
qed

lemma strip_padded:
  assumes "strip D = D"
  shows "strip ('' '' @ D @ '' '') = D"
proof (cases "D = []")
  case True
  then show ?thesis by (simp add: strip_def)
next
  case False
  from strip_fixed[OF assms False] have h: "\<not> isspace (hd D)" and l: "\<not> isspace (last D)" by auto
  have 1: "dropWhile isspace ('' '' @ D @ '' '') = D @ '' ''"
    using h False by (cases D) auto
  have 2: "dropWhile isspace (rev (D @ '' '')) = rev D"
    using l False by (cases "rev D") (auto simp: last_rev hd_rev)
  show ?thesis by (simp only: strip_def 1 2 rev_rev_ident)
qed

lemma find_str_first:
  "i \<le> length s \<Longrightarrow> prefix p (drop i s) \<Longrightarrow> (\<And>j. j < i \<Longrightarrow> \<not> prefix p (drop j s)) \<Longrightarrow>
   find_str p s = Some i"
proof (induction s arbitrary: i)
  case Nil
  then show ?case by simp
next
  case (Cons c cs)
  show ?case
  proof (cases i)
    case 0
    then show ?thesis using Cons.prems(2) by simp
  next
    case (Suc k)
    have np: "\<not> prefix p (c # cs)" using Cons.prems(3)[of 0] Suc by simp
    have "find_str p cs = Some k"
    proof (rule Cons.IH)
      show "k \<le> length cs" using Cons.prems(1) Suc by simp
      show "prefix p (drop k cs)" using Cons.prems(2) Suc by simp
      fix j assume "j < k"
      then show "\<not> prefix p (drop j cs)" using Cons.prems(3)[of "Suc j"] Suc by simp
    qed
    then show ?thesis using np Suc by simp
  qed
qed

lemma marker_text_open: "marker_text d = open_token @ '' '' @ d @ '' '' @ close_token"
  by (simp add: marker_text_def open_token_def close_token_def)

lemma find_marker_first:
  assumes "\<not> sublist open_token pre"
  shows "find_str (marker_text d) (pre @ marker_text d @ post) = Some (length pre)"
proof (rule find_str_first)
  show "length pre \<le> length (pre @ marker_text d @ post)" by simp
  show "prefix (marker_text d) (drop (length pre) (pre @ marker_text d @ post))" by simp
  fix j assume j: "j < length pre"
  have f: "find_str open_token (pre @ open_token @ ('' '' @ d @ '' '' @ close_token @ post))
      = Some (length pre)" using assms by (rule find_open_first)
  have "\<not> prefix open_token (drop j (pre @ marker_text d @ post))"
    using find_str_least[OF f j] by (simp add: marker_text_open)
  moreover have "prefix open_token (marker_text d)" by (simp add: marker_text_open)
  ultimately show "\<not> prefix (marker_text d) (drop j (pre @ marker_text d @ post))"
    using prefix_order.trans by blast
qed

lemma marker_absent:
  assumes "\<not> sublist open_token s"
  shows "find_str (marker_text d) s = None"
proof -
  have "sublist open_token (marker_text d)" by (simp add: marker_text_open)
  then have "\<not> sublist (marker_text d) s"
    using assms sublist_order.order.trans by blast
  then show ?thesis by (simp add: find_str_None_iff)
qed

lemma replace_single_marker:
  assumes "\<not> sublist open_token pre" "\<not> sublist open_token post"
  shows "replace_marker (pre @ marker_text d @ post) rel fn d = pre @ img_tag rel fn d @ post"
proof -
  have "replace_marker (pre @ marker_text d @ post) rel fn d
      = take (length pre) (pre @ marker_text d @ post) @ img_tag rel fn d
        @ replace_marker (drop (length pre + length (marker_text d)) (pre @ marker_text d @ post)) rel fn d"
    using find_marker_first[OF assms(1)] by (rule replace_marker_first)
  also have "\<dots> = pre @ img_tag rel fn d @ replace_marker post rel fn d" by simp
  also have "replace_marker post rel fn d = post"
    using marker_absent[OF assms(2)] by (rule replace_marker_absent)
  finally show ?thesis .
qed

lemma sublist_same_hd:
  assumes "c \<notin> set r"
  shows "sublist (c # r) (xs @ c # ys) \<longleftrightarrow> sublist (c # r) xs \<or> sublist (c # r) (c # ys)"
proof
  assume "sublist (c # r) (xs @ c # ys)"
  then consider "sublist (c # r) xs" | "sublist (c # r) (c # ys)"
    | p1 p2 where "c # r = p1 @ p2" "suffix p1 xs" "prefix p2 (c # ys)"
    unfolding sublist_append by blast
  then show "sublist (c # r) xs \<or> sublist (c # r) (c # ys)"
  proof cases
    case 3
    show ?thesis
    proof (cases "p1 = []")
      case True
      then have "prefix (c # r) (c # ys)" using 3 by simp
      then show ?thesis using prefix_imp_sublist by blast
    next
      case False
      show ?thesis
      proof (cases "p2 = []")
        case True
        then have "suffix (c # r) xs" using 3 by simp
        then show ?thesis using suffix_imp_sublist by blast
      next
        case p2: False
        then obtain p2' where "p2 = c # p2'" using 3(3) by (cases p2) auto
        moreover obtain p1' where "p1 = c # p1'" using False 3(1) by (cases p1) auto
        ultimately have "r = p1' @ c # p2'" using 3(1) by simp
        then show ?thesis using assms by simp
      qed
    qed
  qed simp_all
next
  assume "sublist (c # r) xs \<or> sublist (c # r) (c # ys)"
  then show "sublist (c # r) (xs @ c # ys)" by (auto simp: sublist_append)
qed

lemma open_peel_char: "x \<noteq> CHR ''<'' \<Longrightarrow> sublist open_token (x # xs) = sublist open_token xs"
  by (simp add: sublist_Cons_right open_token_def)

lemma open_peel_lt: "y \<noteq> CHR ''!'' \<Longrightarrow> sublist open_token (CHR ''<'' # y # xs) = sublist open_token (y # xs)"
  by (simp add: sublist_Cons_right open_token_def)

lemma open_peel_list: "CHR ''<'' \<notin> set xs \<Longrightarrow> sublist open_token (xs @ ys) = sublist open_token ys"
  using sublist_fresh_hd[of "CHR ''<''" xs "tl open_token" ys] open_token_facts(3) by simp

lemma escape_char_safe:
  "CHR ''<'' \<notin> set (escape_char c)" "CHR ''>'' \<notin> set (escape_char c)"
  "CHR 0x22 \<notin> set (escape_char c)" "CHR 0x27 \<notin> set (escape_char c)"
  by (simp_all add: escape_char_def)

lemma html_escape_safe:
  "CHR ''<'' \<notin> set (html_escape d)" "CHR ''>'' \<notin> set (html_escape d)"
  "CHR 0x22 \<notin> set (html_escape d)" "CHR 0x27 \<notin> set (html_escape d)"
  by (simp_all add: html_escape_chars escape_char_safe)

lemma no_open_in_img:
  assumes "CHR ''<'' \<notin> set rel" "CHR ''<'' \<notin> set fn"
  shows "sublist open_token (img_tag rel fn d @ post) = sublist open_token post"
proof -
  have 1: "sublist open_token (img_tag rel fn d @ post)
      = sublist open_token (rel @ ''/'' @ fn @ [CHR 0x27] @ '' alt='' @ [CHR 0x27]
          @ html_escape d @ [CHR 0x27] @ '' /></p>'' @ post)"
    by (simp add: img_tag_def open_peel_char open_peel_lt)
  also have "\<dots> = sublist open_token (fn @ [CHR 0x27] @ '' alt='' @ [CHR 0x27]
          @ html_escape d @ [CHR 0x27] @ '' /></p>'' @ post)"
    using assms(1) by (simp add: open_peel_list open_peel_char)
  also have "\<dots> = sublist open_token (html_escape d @ [CHR 0x27] @ '' /></p>'' @ post)"
    using assms(2) by (simp add: open_peel_list open_peel_char)
  also have "\<dots> = sublist open_token post"
    using html_escape_safe(1)[of d] by (simp add: open_peel_list open_peel_char open_peel_lt)
  finally show ?thesis .
qed

lemma no_open_after_replace:
  assumes "\<not> sublist open_token pre" "\<not> sublist open_token post"
    and "CHR ''<'' \<notin> set rel" "CHR ''<'' \<notin> set fn"
  shows "\<not> sublist open_token (pre @ img_tag rel fn d @ post)"
proof -
  obtain t where t: "img_tag rel fn d @ post = CHR ''<'' # t"
    by (simp add: img_tag_def)
  have "sublist open_token (pre @ CHR ''<'' # t)
      \<longleftrightarrow> sublist open_token pre \<or> sublist open_token (CHR ''<'' # t)"
    using sublist_same_hd[OF open_token_facts(4), of pre t] open_token_facts(3) by simp
  then show ?thesis
    using assms(1,2) no_open_in_img[OF assms(3,4), of d post] t by simp
qed

lemma prefix_of_shorter:
  assumes "a @ b = c @ d" "length c \<le> length a"
  shows "prefix c a"
proof -
  have "take (length c) (a @ b) = c" using assms(1) by simp
  moreover have "take (length c) (a @ b) = take (length c) a" using assms(2) by simp
  ultimately have "take (length c) a = c" by simp
  then show ?thesis by (metis take_is_prefix)
qed

lemma unique_occurrence:
  assumes bf: "\<And>us vs. I = us @ vs \<Longrightarrow> us \<noteq> [] \<Longrightarrow> vs \<noteq> [] \<Longrightarrow> \<not> prefix vs I"
    and pre: "\<not> sublist I pre" and post: "\<not> sublist I post"
    and eq: "pre @ I @ post = xs @ I @ ys"
  shows "xs = pre \<and> ys = post"
proof -
  from eq obtain us where
    "(pre = xs @ us \<and> us @ I @ post = I @ ys) \<or> (pre @ us = xs \<and> I @ post = us @ I @ ys)"
    unfolding append_eq_append_conv2 by blast
  then show ?thesis
  proof
    assume A: "pre = xs @ us \<and> us @ I @ post = I @ ys"
    show ?thesis
    proof (cases "us = []")
      case True
      then show ?thesis using A by simp
    next
      case False
      from A have "us @ (I @ post) = I @ ys" by simp
      then obtain vs where
        "(us = I @ vs \<and> vs @ I @ post = ys) \<or> (us @ vs = I \<and> I @ post = vs @ ys)"
        unfolding append_eq_append_conv2 by blast
      then show ?thesis
      proof
        assume "us = I @ vs \<and> vs @ I @ post = ys"
        then have "pre = xs @ I @ vs" using A by simp
        then have "sublist I pre" by simp
        then show ?thesis using pre by simp
      next
        assume B: "us @ vs = I \<and> I @ post = vs @ ys"
        show ?thesis
        proof (cases "vs = []")
          case True
          then have "pre = xs @ I @ []" using A B by simp
          then have "sublist I pre" by (metis sublist_appendI)
          then show ?thesis using pre by simp
        next
          case vs: False
          have "length vs \<le> length I" using B by (metis length_append le_add2)
          then have "prefix vs I" using B prefix_of_shorter[of I post vs ys] by simp
          then show ?thesis using bf[of us vs] B False vs by simp
        qed
      qed
    qed
  next
    assume A: "pre @ us = xs \<and> I @ post = us @ I @ ys"
    show ?thesis
    proof (cases "us = []")
      case True
      then show ?thesis using A by simp
    next
      case False
      from A have "I @ post = us @ (I @ ys)" by simp
      then obtain vs where
        "(I = us @ vs \<and> vs @ post = I @ ys) \<or> (I @ vs = us \<and> post = vs @ I @ ys)"
        unfolding append_eq_append_conv2 by blast
      then show ?thesis
      proof
        assume B: "I = us @ vs \<and> vs @ post = I @ ys"
        show ?thesis
        proof (cases "vs = []")
          case True
          then have "post = I @ ys" using B by simp
          then have "sublist I post" by (metis sublist_append_rightI)
          then show ?thesis using post by simp
        next
          case vs: False
          have "length vs \<le> length I" using B by simp
          then have "prefix vs I" using B prefix_of_shorter[of I ys vs post] by simp
          then show ?thesis using bf[of us vs] B False vs by simp
        qed
      next
        assume "I @ vs = us \<and> post = vs @ I @ ys"
        then have "sublist I post" by simp
        then show ?thesis using post by simp
      qed
    qed
  qed
qed


lemma p_peel_char: "x \<noteq> CHR ''<'' \<Longrightarrow> sublist ''<p'' (x # xs) = sublist ''<p'' xs"
  by (simp add: sublist_Cons_right)

lemma p_peel_lt: "y \<noteq> CHR ''p'' \<Longrightarrow> sublist ''<p'' (CHR ''<'' # y # xs) = sublist ''<p'' (y # xs)"
  by (simp add: sublist_Cons_right)

lemma p_peel_list: "CHR ''<'' \<notin> set xs \<Longrightarrow> sublist ''<p'' (xs @ ys) = sublist ''<p'' ys"
  using sublist_fresh_hd[of "CHR ''<''" xs "''p''" ys] by simp

lemma img_tail_no_p:
  assumes "CHR ''<'' \<notin> set rel" "CHR ''<'' \<notin> set fn"
  shows "\<not> sublist ''<p'' (tl (img_tag rel fn d))"
proof -
  have "sublist ''<p'' (tl (img_tag rel fn d))
      = sublist ''<p'' (rel @ ''/'' @ fn @ [CHR 0x27] @ '' alt='' @ [CHR 0x27]
          @ html_escape d @ [CHR 0x27] @ '' /></p>'')"
    by (simp add: img_tag_def p_peel_char p_peel_lt)
  also have "\<dots> = sublist ''<p'' (fn @ [CHR 0x27] @ '' alt='' @ [CHR 0x27]
          @ html_escape d @ [CHR 0x27] @ '' /></p>'')"
    using assms(1) by (simp add: p_peel_list p_peel_char)
  also have "\<dots> = sublist ''<p'' (html_escape d @ [CHR 0x27] @ '' /></p>'')"
    using assms(2) by (simp add: p_peel_list p_peel_char)
  also have "\<dots> = False"
    using html_escape_safe(1)[of d] by (simp add: p_peel_list p_peel_char p_peel_lt)
  finally show ?thesis by simp
qed

lemma img_border_free:
  assumes rel: "CHR ''<'' \<notin> set rel" "CHR ''<'' \<notin> set fn"
    and d: "img_tag rel fn d = us @ vs" "us \<noteq> []" "vs \<noteq> []"
  shows "\<not> prefix vs (img_tag rel fn d)"
proof
  let ?I = "img_tag rel fn d"
  assume p: "prefix vs ?I"
  have start: "prefix ''<p'' ?I" by (simp add: img_tag_def)
  have lst: "last ?I = CHR ''>''" by (simp add: img_tag_def)
  obtain v vs' where v: "vs = v # vs'" using d(3) by (cases vs) auto
  have hv: "v = CHR ''<''" using p v start by (auto simp: img_tag_def)
  show False
  proof (cases "vs' = []")
    case True
    then have "last ?I = v" using d(1) v by simp
    then show ?thesis using lst hv by simp
  next
    case False
    then have "length ''<p'' \<le> length vs" using v by (cases vs') auto
    then have "prefix ''<p'' vs" using prefix_length_prefix[OF start p] by simp
    then have "sublist ''<p'' vs" by (rule prefix_imp_sublist)
    moreover obtain u us' where "us = u # us'" using d(2) by (cases us) auto
    then have "tl ?I = us' @ vs" using d(1) by simp
    then have "sublist vs (tl ?I)" by simp
    ultimately have "sublist ''<p'' (tl ?I)" using sublist_order.order.trans by blast
    then show ?thesis using img_tail_no_p[OF rel] by simp
  qed
qed

lemma padded_no_close:
  assumes "\<not> sublist close_token d"
  shows "\<not> sublist close_token ('' '' @ d @ '' '')"
proof -
  have "sublist close_token ([] @ CHR '' '' # (d @ '' '')) \<longleftrightarrow> sublist close_token [] \<or> sublist close_token (d @ '' '')"
    using close_token_facts(4) by (rule sublist_sep)
  moreover have "sublist close_token (d @ CHR '' '' # []) \<longleftrightarrow> sublist close_token d \<or> sublist close_token []"
    using close_token_facts(4) by (rule sublist_sep)
  ultimately show ?thesis using assms close_token_facts(1) by simp
qed

text \<open>
  C6 (as amended): for every text that contains exactly one marker, written in the exact
  shape \<open><!-- illustration: D -->\<close> with a trimmed one-line description \<open>D\<close>, the
  extraction returns \<open>[D]\<close>; the replacement with an image reference whose path has no
  \<open><\<close> puts one image reference in the place of the marker and leaves the text before and
  after it as it was, so that the marker token is absent; the \<open>alt\<close> text is \<open>D\<close> with
  ampersands, quotes and angle brackets escaped. When the text held no such image
  reference before, the inserted one is the only one.
\<close>

theorem marker_round_trip:
  assumes c: "content = pre @ marker_text D @ post"
    and pre: "\<not> contains open_token pre" and post: "\<not> contains open_token post"
    and D: "strip D = D" "CHR 0x0A \<notin> set D" "\<not> contains close_token D"
    and rel: "CHR ''<'' \<notin> set rel" "CHR ''<'' \<notin> set fn"
  shows "extract_illustrations content = Inr [D]
       \<and> replace_marker content rel fn D = pre @ img_tag rel fn D @ post
       \<and> \<not> contains open_token (replace_marker content rel fn D)
       \<and> img_tag rel fn D
           = ''<p><img src='' @ [CHR 0x27] @ rel @ ''/'' @ fn @ [CHR 0x27]
               @ '' alt='' @ [CHR 0x27] @ concat (map escape_char D) @ [CHR 0x27] @ '' /></p>''
       \<and> (\<not> contains (img_tag rel fn D) pre \<and> \<not> contains (img_tag rel fn D) post \<longrightarrow>
            (\<forall>xs ys. replace_marker content rel fn D = xs @ img_tag rel fn D @ ys \<longrightarrow>
                     xs = pre \<and> ys = post))"
proof -
  have pre': "\<not> sublist open_token pre" and post': "\<not> sublist open_token post"
    using pre post by (simp_all add: contains_iff_sublist)
  have w: "\<not> sublist close_token ('' '' @ D @ '' '')"
    using D(3) by (intro padded_no_close) (simp add: contains_iff_sublist)
  have nl: "CHR 0x0A \<notin> set ('' '' @ D @ '' '')" using D(2) by simp
  have "extract_illustrations (pre @ open_token @ ('' '' @ D @ '' '') @ close_token @ post)
      = Inr [strip ('' '' @ D @ '' '')]"
    using pre' post' nl w by (rule extract_single_marker)
  then have 1: "extract_illustrations content = Inr [D]"
    using strip_padded[OF D(1)] by (simp add: c marker_text_open)
  have 2: "replace_marker content rel fn D = pre @ img_tag rel fn D @ post"
    unfolding c using pre' post' by (rule replace_single_marker)
  have 3: "\<not> contains open_token (replace_marker content rel fn D)"
    unfolding 2 contains_iff_sublist using pre' post' rel by (rule no_open_after_replace)
  have 4: "img_tag rel fn D
           = ''<p><img src='' @ [CHR 0x27] @ rel @ ''/'' @ fn @ [CHR 0x27]
               @ '' alt='' @ [CHR 0x27] @ concat (map escape_char D) @ [CHR 0x27] @ '' /></p>''"
    by (simp add: img_tag_def html_escape_chars)
  have 5: "xs = pre \<and> ys = post"
    if "\<not> contains (img_tag rel fn D) pre" "\<not> contains (img_tag rel fn D) post"
      "replace_marker content rel fn D = xs @ img_tag rel fn D @ ys" for xs ys
  proof (rule unique_occurrence)
    show "\<not> sublist (img_tag rel fn D) pre" "\<not> sublist (img_tag rel fn D) post"
      using that(1,2) by (simp_all add: contains_iff_sublist)
    show "pre @ img_tag rel fn D @ post = xs @ img_tag rel fn D @ ys"
      using that(3) 2 by simp
    fix us vs assume "img_tag rel fn D = us @ vs" "us \<noteq> []" "vs \<noteq> []"
    then show "\<not> prefix vs (img_tag rel fn D)"
      using img_border_free[OF rel] by blast
  qed
  from 1 2 3 4 5 show ?thesis by blast
qed

text \<open>
  An image reference that the text already holds is kept by the replacement, next to the
  one that takes the place of the marker.
\<close>

lemma existing_reference_kept:
  "extract_illustrations ex_illustrated = Inr [''a cat'']
   \<and> replace_marker ex_illustrated ''Images'' ''illustration_0.png'' ''a cat''
       = img_tag ''Images'' ''illustration_0.png'' ''a cat''
         @ img_tag ''Images'' ''illustration_0.png'' ''a cat''"
  by code_simp

theorem marker_round_trip_witness:
  "extract_illustrations (''<p>x</p>'' @ marker_text ''a cat'' @ ''<p>y</p>'') = Inr [''a cat'']
   \<and> replace_marker (''<p>x</p>'' @ marker_text ''a cat'' @ ''<p>y</p>'') ''Images'' ''illustration_0.png'' ''a cat''
       = ''<p>x</p>'' @ img_tag ''Images'' ''illustration_0.png'' ''a cat'' @ ''<p>y</p>''
   \<and> \<not> contains open_token
        (replace_marker (''<p>x</p>'' @ marker_text ''a cat'' @ ''<p>y</p>'') ''Images'' ''illustration_0.png'' ''a cat'')"
proof -
  have h: "\<not> contains open_token ''<p>x</p>''" "\<not> contains open_token ''<p>y</p>''"
    "strip ''a cat'' = ''a cat''" "CHR 0x0A \<notin> set ''a cat''" "\<not> contains close_token ''a cat''"
    "CHR ''<'' \<notin> set ''Images''" "CHR ''<'' \<notin> set ''illustration_0.png''"
    by code_simp+
  show ?thesis
    using marker_round_trip[OF refl h] by blast
qed


text \<open>
  A text with exactly one marker of description \<open>a cat\<close>, written without the spaces
  around the description: the extraction returns the description, but the replacement
  leaves the text as it is, marker included, and no image reference appears.
\<close>

theorem canonical_shape_counterexample:
  "extract_illustrations ex_tight = Inr [''a cat'']
   \<and> replace_marker ex_tight ''Images'' ''illustration_0.png'' ''a cat'' = ex_tight
   \<and> contains open_token (replace_marker ex_tight ''Images'' ''illustration_0.png'' ''a cat'')
   \<and> \<not> contains ''<img'' (replace_marker ex_tight ''Images'' ''illustration_0.png'' ''a cat'')"
  by code_simp

































text \<open>
  An interior that holds an opening token is not protected: the replacement for the
  description of the second line rewrites the inner marker of the first line.
\<close>

lemma nested_marker_is_rewritten:
  "extract_illustrations ex_nested = Inr [''x <!-- illustration: y'', ''y'']
   \<and> replace_marker ex_nested ''Images'' ''illustration_1.png'' ''y''
       = open_token @ ''x '' @ img_tag ''Images'' ''illustration_1.png'' ''y'' @ [CHR 0x0A]
         @ img_tag ''Images'' ''illustration_1.png'' ''y''"
  by code_simp

end
